theory Spec2Isabelle
  imports Complex_Main "HOL-Library.While_Combinator"
begin

section \<open>JavaScript numbers\<close>

text \<open>
  The allocator of \<^verbatim>\<open>services/RoomAllocator.ts\<close> and the room container of
  \<^verbatim>\<open>models/RoomBox.ts\<close> compute with JavaScript numbers, which are binary64
  floating-point values. On integer inputs every value the code computes is again an
  integer (the only division is by the capacity, under \<^verbatim>\<open>Math.floor\<close>), so a number
  is modelled as an \<open>int\<close>, and the result of \<^verbatim>\<open>+\<close>, \<^verbatim>\<open>-\<close> and \<^verbatim>\<open>*\<close> is the
  exact result rounded to the nearest integer that binary64 holds, ties to the even
  significand. Overflow to \<^verbatim>\<open>Infinity\<close>, beyond \<open>2^1024\<close>, is outside the model.
\<close>

text \<open>
  The spacing of the binary64 numbers around \<open>n\<close>: \<open>1\<close> below \<open>2^53\<close>, doubling
  with every further binary digit.
\<close>

function ulp :: "int \<Rightarrow> int" where
  "ulp n = (if n < 2 ^ 53 then 1 else 2 * ulp (n div 2))"
  by pat_completeness auto
termination
proof (relation "measure nat")
  show "wf (measure nat)" by simp
next
  fix n :: int
  assume "\<not> n < 2 ^ 53"
  then have "0 < n" by simp
  then have "n div 2 < n" by simp
  with \<open>0 < n\<close> show "(n div 2, n) \<in> measure nat" by simp
qed

declare ulp.simps [simp del]

text \<open>
  Rounding \<open>n \<ge> 0\<close> to the nearest multiple of \<open>u\<close>, a tie going to the even
  multiple.
\<close>

definition roundToMultiple :: "int \<Rightarrow> int \<Rightarrow> int" where
  "roundToMultiple u n =
     (let q = n div u; r = n mod u
      in if 2 * r < u \<or> (2 * r = u \<and> even q) then q * u else (q + 1) * u)"

text \<open>The number value of an exact integer result; rounding is symmetric in the sign.\<close>

definition roundNumber :: "int \<Rightarrow> int" where
  "roundNumber x =
     (if 0 \<le> x then roundToMultiple (ulp x) x
      else - roundToMultiple (ulp (- x)) (- x))"

text \<open>The operators \<^verbatim>\<open>+\<close>, \<^verbatim>\<open>-\<close> and \<^verbatim>\<open>*\<close> on numbers.\<close>

definition addN :: "int \<Rightarrow> int \<Rightarrow> int" where
  "addN x y = roundNumber (x + y)"

definition subN :: "int \<Rightarrow> int \<Rightarrow> int" where
  "subN x y = roundNumber (x - y)"

definition mulN :: "int \<Rightarrow> int \<Rightarrow> int" where
  "mulN x y = roundNumber (x * y)"

section \<open>The data model\<close>

text \<open>
  Modelled from the spec: \<^verbatim>\<open>constants/limits.ts\<close> is not among the sources; the
  README and the specification give \<^verbatim>\<open>export const ROOM_CAPACITY = 4\<close>.
\<close>

definition ROOM_CAPACITY :: int where
  "ROOM_CAPACITY = 4"

text \<open>The interface \<^verbatim>\<open>Room\<close>: three occupant counts.\<close>

record Room =
  adults :: int
  seniors :: int
  children :: int

text \<open>
  The class \<^verbatim>\<open>RoomBox implements Room\<close> has the same three fields and no other
  state; its getters and methods are functions on the record. A method that mutates
  the object returns the updated record, together with its return value.
\<close>

type_synonym RoomBox = Room

definition newRoomBox :: RoomBox where
  "newRoomBox = \<lparr>adults = 0, seniors = 0, children = 0\<rparr>"

definition total_room :: "RoomBox \<Rightarrow> int" where
  "total_room r = addN (addN (adults r) (seniors r)) (children r)"

definition remainingCapacity :: "RoomBox \<Rightarrow> int" where
  "remainingCapacity r = subN ROOM_CAPACITY (total_room r)"

definition addAdults :: "RoomBox \<Rightarrow> int \<Rightarrow> RoomBox \<times> int" where
  "addAdults r count =
     (let canAdd = min count (remainingCapacity r)
      in (r\<lparr>adults := addN (adults r) canAdd\<rparr>, canAdd))"

definition addSeniors :: "RoomBox \<Rightarrow> int \<Rightarrow> RoomBox \<times> int" where
  "addSeniors r count =
     (let canAdd = min count (remainingCapacity r)
      in (r\<lparr>seniors := addN (seniors r) canAdd\<rparr>, canAdd))"

definition addChildren :: "RoomBox \<Rightarrow> int \<Rightarrow> RoomBox \<times> int" where
  "addChildren r count =
     (let canAdd = min count (remainingCapacity r)
      in (r\<lparr>children := addN (children r) canAdd\<rparr>, canAdd))"

definition toRoom :: "RoomBox \<Rightarrow> Room" where
  "toRoom r = \<lparr>adults = adults r, seniors = seniors r, children = children r\<rparr>"

section \<open>The allocator\<close>

subsection \<open>Feasibility and the senior-only quota\<close>

definition isFeasible :: "int \<Rightarrow> int \<Rightarrow> int \<Rightarrow> int \<Rightarrow> bool" where
  "isFeasible roomCount numAdults numSeniors numChildren =
     (let totalPeople = addN (addN numAdults numSeniors) numChildren
      in if roomCount \<le> 0 then False
         else if totalPeople < roomCount then False
         else if totalPeople > mulN roomCount ROOM_CAPACITY then False
         else if numChildren > 0 \<and> addN numAdults numSeniors = 0 then False
         else True)"

text \<open>
  \<^verbatim>\<open>Math.floor((a + b - 1) / b)\<close>. The function is only called with
  \<open>b = ROOM_CAPACITY\<close>, a power of two: the quotient of a binary64 number by it is
  exact, and its floor is \<open>div\<close>, which rounds towards minus infinity.
\<close>

definition ceilDiv :: "int \<Rightarrow> int \<Rightarrow> int" where
  "ceilDiv a b = subN (addN a b) 1 div b"

text \<open>
  The \<^verbatim>\<open>while (seniorOnlyRooms > 0)\<close> loop of \<^verbatim>\<open>pickSeniorOnlyRoomCount\<close>: it
  breaks as soon as the remaining rooms can be anchored, and decrements otherwise.
  \<open>None\<close> stands for a loop that never ends.
\<close>

partial_function (option) shrinkSeniorOnlyRooms :: "int \<Rightarrow> int \<Rightarrow> int \<Rightarrow> int \<Rightarrow> int option" where
  "shrinkSeniorOnlyRooms roomCount numAdults numSeniors seniorOnlyRooms =
     (if seniorOnlyRooms > 0 then
        (let seniorsInSeniorRooms = min numSeniors (mulN seniorOnlyRooms ROOM_CAPACITY);
             seniorsLeft = subN numSeniors seniorsInSeniorRooms;
             roomsLeft = subN roomCount seniorOnlyRooms
         in if addN numAdults seniorsLeft \<ge> roomsLeft then Some seniorOnlyRooms
            else shrinkSeniorOnlyRooms roomCount numAdults numSeniors (subN seniorOnlyRooms 1))
      else Some seniorOnlyRooms)"

declare shrinkSeniorOnlyRooms.simps [code]

definition pickSeniorOnlyRoomCount :: "int \<Rightarrow> int \<Rightarrow> int \<Rightarrow> int \<Rightarrow> int option" where
  "pickSeniorOnlyRoomCount roomCount numAdults numSeniors numChildren =
     (let roomsNeededForNonSeniors = ceilDiv (addN numAdults numChildren) ROOM_CAPACITY;
          maxSpareRooms = max 0 (subN roomCount roomsNeededForNonSeniors);
          seniorOnlyRooms = min maxSpareRooms (ceilDiv numSeniors ROOM_CAPACITY)
      in shrinkSeniorOnlyRooms roomCount numAdults numSeniors seniorOnlyRooms)"

subsection \<open>Creating and seeding the rooms\<close>

datatype error = RangeError

text \<open>
  \<^verbatim>\<open>Array.from({ length: n }, () => new RoomBox())\<close>: \<open>n\<close> fresh containers. A
  negative length gives the empty array; a length of \<open>2^32\<close> or more makes the array
  constructor throw \<^verbatim>\<open>RangeError\<close>.
\<close>

definition newRooms :: "int \<Rightarrow> error + RoomBox list" where
  "newRooms n = (if n \<ge> 2 ^ 32 then Inl RangeError else Inr (replicate (nat n) newRoomBox))"

text \<open>
  Steps 2 and 3 of \<^verbatim>\<open>distribute\<close>: the quota, then the senior-only rooms and the
  mixed rooms. \<open>None\<close> if the quota loop never ends.
\<close>

definition createRooms ::
  "int \<Rightarrow> int \<Rightarrow> int \<Rightarrow> int \<Rightarrow> (error + RoomBox list \<times> RoomBox list) option" where
  "createRooms roomCount totalAdults totalSeniors totalChildren =
     (case pickSeniorOnlyRoomCount roomCount totalAdults totalSeniors totalChildren of
        None \<Rightarrow> None
      | Some seniorOnlyCount \<Rightarrow>
          (case newRooms seniorOnlyCount of
             Inl e \<Rightarrow> Some (Inl e)
           | Inr seniorOnlyRooms \<Rightarrow>
               (case newRooms (subN roomCount seniorOnlyCount) of
                  Inl e \<Rightarrow> Some (Inl e)
                | Inr mixedRooms \<Rightarrow> Some (Inr (seniorOnlyRooms, mixedRooms)))))"

text \<open>
  Step 4 of \<^verbatim>\<open>distribute\<close>: fill the senior-only rooms in order, stopping when
  no senior is left. Returns the rooms and the seniors still to place.
\<close>

fun fillSeniorOnlyRooms :: "RoomBox list \<Rightarrow> int \<Rightarrow> RoomBox list \<times> int" where
  "fillSeniorOnlyRooms [] remainingSeniors = ([], remainingSeniors)"
| "fillSeniorOnlyRooms (room # rooms) remainingSeniors =
     (if remainingSeniors \<le> 0 then (room # rooms, remainingSeniors)
      else (case addSeniors room (min ROOM_CAPACITY remainingSeniors) of
              (room', placed) \<Rightarrow>
                (case fillSeniorOnlyRooms rooms (subN remainingSeniors placed) of
                   (rooms', remainingSeniors') \<Rightarrow> (room' # rooms', remainingSeniors'))))"

text \<open>
  Step 5 of \<^verbatim>\<open>distribute\<close>: give every mixed room an anchor, an adult if one is
  left and a senior otherwise. \<open>None\<close> is the \<^verbatim>\<open>return []\<close> inside the loop, taken
  when a room is reached with neither left. Otherwise the result holds the rooms, the
  remaining adults and the remaining seniors.
\<close>

fun seedMixedRooms :: "RoomBox list \<Rightarrow> int \<Rightarrow> int \<Rightarrow> (RoomBox list \<times> int \<times> int) option" where
  "seedMixedRooms [] remainingAdults remainingSeniors = Some ([], remainingAdults, remainingSeniors)"
| "seedMixedRooms (room # rooms) remainingAdults remainingSeniors =
     (if remainingAdults > 0 then
        (case seedMixedRooms rooms (subN remainingAdults 1) remainingSeniors of
           None \<Rightarrow> None
         | Some (rooms', a', s') \<Rightarrow> Some (fst (addAdults room 1) # rooms', a', s'))
      else if remainingSeniors > 0 then
        (case seedMixedRooms rooms remainingAdults (subN remainingSeniors 1) of
           None \<Rightarrow> None
         | Some (rooms', a', s') \<Rightarrow> Some (fst (addSeniors room 1) # rooms', a', s'))
      else None)"

text \<open>
  Steps 4 and 5 together. \<open>None\<close> is the \<^verbatim>\<open>return []\<close> of step 5; otherwise the
  result is \<open>(seniorOnlyRooms, mixedRooms, remainingAdults, remainingSeniors)\<close>.
\<close>

definition seedRooms ::
  "RoomBox list \<Rightarrow> RoomBox list \<Rightarrow> int \<Rightarrow> int \<Rightarrow>
     (RoomBox list \<times> RoomBox list \<times> int \<times> int) option" where
  "seedRooms seniorOnlyRooms mixedRooms totalAdults totalSeniors =
     (case fillSeniorOnlyRooms seniorOnlyRooms totalSeniors of
        (seniorOnlyRooms', remainingSeniors) \<Rightarrow>
          (case seedMixedRooms mixedRooms totalAdults remainingSeniors of
             None \<Rightarrow> None
           | Some (mixedRooms', remainingAdults, remainingSeniors') \<Rightarrow>
               Some (seniorOnlyRooms', mixedRooms', remainingAdults, remainingSeniors')))"

subsection \<open>The placement sweeps\<close>

text \<open>
  Every placement helper runs the same \<^verbatim>\<open>for (const room of rooms)\<close> loop: stop when
  nobody is left; in a room that qualifies, add one person, decrement the counter and
  set \<^verbatim>\<open>placedSomething\<close>. The helpers differ in the test \<open>ok\<close> and in the method
  \<open>add\<close> they call. The loop returns the rooms, the counter and the flag.
\<close>

fun sweep :: "(RoomBox \<Rightarrow> bool) \<Rightarrow> (RoomBox \<Rightarrow> int \<Rightarrow> RoomBox \<times> int) \<Rightarrow>
    RoomBox list \<Rightarrow> int \<Rightarrow> bool \<Rightarrow> RoomBox list \<times> int \<times> bool" where
  "sweep ok add [] remaining placedSomething = ([], remaining, placedSomething)"
| "sweep ok add (room # rooms) remaining placedSomething =
     (if remaining \<le> 0 then (room # rooms, remaining, placedSomething)
      else if ok room then
        (case sweep ok add rooms (subN remaining 1) True of
           (rooms', remaining', placed') \<Rightarrow> (fst (add room 1) # rooms', remaining', placed'))
      else
        (case sweep ok add rooms remaining placedSomething of
           (rooms', remaining', placed') \<Rightarrow> (room # rooms', remaining', placed')))"

text \<open>
  The \<^verbatim>\<open>while (remaining > 0)\<close> loop around two such sweeps, over a first and a
  second group of rooms, left when a pass places nobody. The loop is defined without
  a termination argument: \<open>None\<close> stands for a loop that never ends.
\<close>

partial_function (option) sweepUntilNoProgress ::
  "(RoomBox \<Rightarrow> bool) \<Rightarrow> (RoomBox \<Rightarrow> int \<Rightarrow> RoomBox \<times> int) \<Rightarrow>
    int \<Rightarrow> RoomBox list \<Rightarrow> RoomBox list \<Rightarrow> (int \<times> RoomBox list \<times> RoomBox list) option" where
  "sweepUntilNoProgress ok add remaining firstRooms secondRooms =
     (if remaining > 0 then
        (case sweep ok add firstRooms remaining False of
           (firstRooms', remaining1, placed1) \<Rightarrow>
             (case sweep ok add secondRooms remaining1 placed1 of
                (secondRooms', remaining2, placed2) \<Rightarrow>
                  if \<not> placed2 then Some (remaining2, firstRooms', secondRooms')
                  else sweepUntilNoProgress ok add remaining2 firstRooms' secondRooms'))
      else Some (remaining, firstRooms, secondRooms))"

declare sweepUntilNoProgress.simps [code]

text \<open>
  The five helpers. Each returns the remaining count and its two room arrays, in the
  order of its parameters.
\<close>

definition placeSeniorsIntoRoomsThatAlreadyHaveSeniors ::
  "int \<Rightarrow> RoomBox list \<Rightarrow> RoomBox list \<Rightarrow> (int \<times> RoomBox list \<times> RoomBox list) option" where
  "placeSeniorsIntoRoomsThatAlreadyHaveSeniors count seniorOnlyRooms mixedRooms =
     (if count \<le> 0 then Some (0, seniorOnlyRooms, mixedRooms)
      else sweepUntilNoProgress (\<lambda>room. seniors room > 0 \<and> remainingCapacity room > 0)
             addSeniors count seniorOnlyRooms mixedRooms)"

definition placeSeniorsAnywhere ::
  "int \<Rightarrow> RoomBox list \<Rightarrow> RoomBox list \<Rightarrow> (int \<times> RoomBox list \<times> RoomBox list) option" where
  "placeSeniorsAnywhere count seniorOnlyRooms mixedRooms =
     (if count \<le> 0 then Some (0, seniorOnlyRooms, mixedRooms)
      else sweepUntilNoProgress (\<lambda>room. remainingCapacity room > 0)
             addSeniors count seniorOnlyRooms mixedRooms)"

text \<open>
  \<^verbatim>\<open>placeAdultsPreferMixedRooms\<close> has two loops in sequence, each sweeping one
  group only: the second group of each loop is the empty array.
\<close>

definition placeAdultsPreferMixedRooms ::
  "int \<Rightarrow> RoomBox list \<Rightarrow> RoomBox list \<Rightarrow> (int \<times> RoomBox list \<times> RoomBox list) option" where
  "placeAdultsPreferMixedRooms count mixedRooms seniorOnlyRooms =
     (if count \<le> 0 then Some (0, mixedRooms, seniorOnlyRooms)
      else
        (case sweepUntilNoProgress (\<lambda>room. remainingCapacity room > 0) addAdults
                count mixedRooms [] of
           None \<Rightarrow> None
         | Some (remaining1, mixedRooms', _) \<Rightarrow>
             (case sweepUntilNoProgress (\<lambda>room. remainingCapacity room > 0) addAdults
                     remaining1 seniorOnlyRooms [] of
                None \<Rightarrow> None
              | Some (remaining2, seniorOnlyRooms', _) \<Rightarrow>
                  Some (remaining2, mixedRooms', seniorOnlyRooms'))))"

definition placeChildrenIntoRoomsWithAdults ::
  "int \<Rightarrow> RoomBox list \<Rightarrow> RoomBox list \<Rightarrow> (int \<times> RoomBox list \<times> RoomBox list) option" where
  "placeChildrenIntoRoomsWithAdults count mixedRooms seniorOnlyRooms =
     (if count \<le> 0 then Some (0, mixedRooms, seniorOnlyRooms)
      else sweepUntilNoProgress (\<lambda>room. adults room > 0 \<and> remainingCapacity room > 0)
             addChildren count mixedRooms seniorOnlyRooms)"

text \<open>
  \<^verbatim>\<open>placeChildrenIntoRoomsWithSeniors\<close> sweeps the senior-only rooms first although
  it receives the mixed rooms first.
\<close>

definition placeChildrenIntoRoomsWithSeniors ::
  "int \<Rightarrow> RoomBox list \<Rightarrow> RoomBox list \<Rightarrow> (int \<times> RoomBox list \<times> RoomBox list) option" where
  "placeChildrenIntoRoomsWithSeniors count mixedRooms seniorOnlyRooms =
     (if count \<le> 0 then Some (0, mixedRooms, seniorOnlyRooms)
      else
        (case sweepUntilNoProgress (\<lambda>room. seniors room > 0 \<and> remainingCapacity room > 0)
                addChildren count seniorOnlyRooms mixedRooms of
           None \<Rightarrow> None
         | Some (remaining', seniorOnlyRooms', mixedRooms') \<Rightarrow>
             Some (remaining', mixedRooms', seniorOnlyRooms')))"

subsection \<open>Sorting the result\<close>

text \<open>
  The comparator \<^verbatim>\<open>b.adults - a.adults || b.seniors - a.seniors || b.children - a.children\<close>:
  \<^verbatim>\<open>x || y\<close> is \<open>x\<close> unless \<open>x\<close> is zero.
\<close>

definition compareRooms :: "Room \<Rightarrow> Room \<Rightarrow> int" where
  "compareRooms a b =
     (if subN (adults b) (adults a) \<noteq> 0 then subN (adults b) (adults a)
      else if subN (seniors b) (seniors a) \<noteq> 0 then subN (seniors b) (seniors a)
      else subN (children b) (children a))"

text \<open>
  \<^verbatim>\<open>Array.prototype.sort\<close> with this comparator, as a stable insertion sort: an
  element goes before the first one it does not compare greater than. Two rooms that
  compare equal have equal fields, so every sorting algorithm gives this same result.
\<close>

fun insertRoom :: "Room \<Rightarrow> Room list \<Rightarrow> Room list" where
  "insertRoom x [] = [x]"
| "insertRoom x (y # ys) =
     (if compareRooms x y \<le> 0 then x # y # ys else y # insertRoom x ys)"

definition sortRooms :: "Room list \<Rightarrow> Room list" where
  "sortRooms rs = foldr insertRoom rs []"

subsection \<open>The operation \<^verbatim>\<open>distribute\<close>\<close>

text \<open>
  Steps 6 to 8: the placement helpers in the order of the source. The result is
  \<open>(seniorOnlyRooms, mixedRooms, remainingAdults, remainingSeniors, remainingChildren)\<close>;
  \<open>None\<close> only if one of the loops does not end.
\<close>

definition placeEveryone ::
  "RoomBox list \<Rightarrow> RoomBox list \<Rightarrow> int \<Rightarrow> int \<Rightarrow> int \<Rightarrow>
     (RoomBox list \<times> RoomBox list \<times> int \<times> int \<times> int) option" where
  "placeEveryone seniorOnlyRooms mixedRooms remainingAdults remainingSeniors remainingChildren =
     (case placeSeniorsIntoRoomsThatAlreadyHaveSeniors remainingSeniors seniorOnlyRooms mixedRooms of
        None \<Rightarrow> None
      | Some (remS1, so1, mx1) \<Rightarrow>
     (case placeSeniorsAnywhere remS1 so1 mx1 of
        None \<Rightarrow> None
      | Some (remS2, so2, mx2) \<Rightarrow>
     (case placeAdultsPreferMixedRooms remainingAdults mx2 so2 of
        None \<Rightarrow> None
      | Some (remA1, mx3, so3) \<Rightarrow>
     (case placeChildrenIntoRoomsWithAdults remainingChildren mx3 so3 of
        None \<Rightarrow> None
      | Some (remC1, mx4, so4) \<Rightarrow>
     (case (if remC1 > 0 then placeChildrenIntoRoomsWithSeniors remC1 mx4 so4
            else Some (remC1, mx4, so4)) of
        None \<Rightarrow> None
      | Some (remC2, mx5, so5) \<Rightarrow> Some (so5, mx5, remA1, remS2, remC2))))))"

text \<open>Steps 9 and 10, after the check that nobody is left.\<close>

definition finishRooms :: "RoomBox list \<Rightarrow> RoomBox list \<Rightarrow> int \<Rightarrow> int \<Rightarrow> int \<Rightarrow> Room list" where
  "finishRooms seniorOnlyRooms mixedRooms remainingAdults remainingSeniors remainingChildren =
     (if remainingAdults > 0 \<or> remainingSeniors > 0 \<or> remainingChildren > 0 then []
      else
        (let allRooms = mixedRooms @ seniorOnlyRooms
         in if list_ex (\<lambda>r. total_room r \<le> 0) allRooms then []
            else if list_ex (\<lambda>r. children r > 0 \<and> addN (adults r) (seniors r) = 0) allRooms then []
            else sortRooms (map toRoom allRooms)))"

text \<open>
  \<^verbatim>\<open>distribute\<close>. \<open>Some (Inr rooms)\<close> is a call that returns the array \<open>rooms\<close>,
  \<open>Some (Inl e)\<close> a call that throws \<open>e\<close>, and \<open>None\<close> a call that never returns.
\<close>

definition distribute :: "int \<Rightarrow> int \<Rightarrow> int \<Rightarrow> int \<Rightarrow> (error + Room list) option" where
  "distribute roomCount totalAdults totalSeniors totalChildren =
     (if \<not> isFeasible roomCount totalAdults totalSeniors totalChildren then Some (Inr [])
      else
        (case createRooms roomCount totalAdults totalSeniors totalChildren of
           None \<Rightarrow> None
         | Some (Inl e) \<Rightarrow> Some (Inl e)
         | Some (Inr (seniorOnlyRooms, mixedRooms)) \<Rightarrow>
             (case seedRooms seniorOnlyRooms mixedRooms totalAdults totalSeniors of
                None \<Rightarrow> Some (Inr [])
              | Some (seniorOnlyRooms', mixedRooms', remainingAdults, remainingSeniors) \<Rightarrow>
                  (case placeEveryone seniorOnlyRooms' mixedRooms'
                          remainingAdults remainingSeniors totalChildren of
                     None \<Rightarrow> None
                   | Some (seniorOnlyRooms'', mixedRooms'', remA, remS, remC) \<Rightarrow>
                       Some (Inr (finishRooms seniorOnlyRooms'' mixedRooms'' remA remS remC))))))"

section \<open>Invariants\<close>

text \<open>
  The state of a \<^verbatim>\<open>RoomBox\<close> the specification calls well formed: no negative
  field, and a total within the capacity.
\<close>

definition roomBoxInv :: "RoomBox \<Rightarrow> bool" where
  "roomBoxInv r = (0 \<le> adults r \<and> 0 \<le> seniors r \<and> 0 \<le> children r \<and> total_room r \<le> ROOM_CAPACITY)"

text \<open>The sum of one field over a group of rooms.\<close>

abbreviation sumOf :: "(Room \<Rightarrow> int) \<Rightarrow> Room list \<Rightarrow> int" where
  "sumOf f rs \<equiv> sum_list (map f rs)"


text \<open>
  The accounts of an allocation in progress, for room count \<open>n\<close> and totals \<open>a\<close>,
  \<open>s\<close>, \<open>c\<close>: the two groups hold \<open>n\<close> well-formed rooms, every counter of people
  still to place lies between \<open>0\<close> and \<open>2^53\<close>, and in each category the people in
  the rooms and the people still to place add up to the total.
\<close>

definition allocInv ::
  "int \<Rightarrow> int \<Rightarrow> int \<Rightarrow> int \<Rightarrow> RoomBox list \<Rightarrow> RoomBox list \<Rightarrow> int \<Rightarrow> int \<Rightarrow> int \<Rightarrow> bool" where
  "allocInv n a s c so mx ra rs rc =
     (int (length so) + int (length mx) = n
      \<and> list_all roomBoxInv so \<and> list_all roomBoxInv mx
      \<and> 0 \<le> ra \<and> ra \<le> 2 ^ 53 \<and> 0 \<le> rs \<and> rs \<le> 2 ^ 53 \<and> 0 \<le> rc \<and> rc \<le> 2 ^ 53
      \<and> sumOf adults so + sumOf adults mx + ra = a
      \<and> sumOf seniors so + sumOf seniors mx + rs = s
      \<and> sumOf children so + sumOf children mx + rc = c)"

section \<open>Notions of the specification\<close>

text \<open>
  The order of the result: a room is not below another in the lexicographic order of
  the triples (adults, seniors, children).
\<close>

definition roomGe :: "Room \<Rightarrow> Room \<Rightarrow> bool" where
  "roomGe r1 r2 =
     (adults r1 > adults r2
      \<or> (adults r1 = adults r2 \<and> seniors r1 > seniors r2)
      \<or> (adults r1 = adults r2 \<and> seniors r1 = seniors r2 \<and> children r1 \<ge> children r2))"

text \<open>
  The senior-only quota in the words of the specification, in exact arithmetic: start
  from
  \<open>min (max 0 (roomCount - ceil ((adults + children) / CAPACITY))) (ceil (seniors / CAPACITY))\<close>,
  with the ceiling of the real quotient, and decrement while the quota is positive and
  \<open>adults + (seniors - min seniors (quota * CAPACITY)) < roomCount - quota\<close>.
\<close>

definition specShrink :: "int \<Rightarrow> int \<Rightarrow> int \<Rightarrow> int \<Rightarrow> int" where
  "specShrink roomCount numAdults numSeniors quota =
     while (\<lambda>q. q > 0 \<and>
                numAdults + (numSeniors - min numSeniors (q * ROOM_CAPACITY)) < roomCount - q)
           (\<lambda>q. q - 1) quota"

definition specQuota :: "int \<Rightarrow> int \<Rightarrow> int \<Rightarrow> int \<Rightarrow> int" where
  "specQuota roomCount numAdults numSeniors numChildren =
     specShrink roomCount numAdults numSeniors
       (min (max 0 (roomCount -
               \<lceil>real_of_int (numAdults + numChildren) / real_of_int ROOM_CAPACITY\<rceil>))
            \<lceil>real_of_int numSeniors / real_of_int ROOM_CAPACITY\<rceil>)"

section \<open>Rounding\<close>

lemma ulp_pos: "0 < ulp n"
  by (induction n rule: ulp.induct) (subst ulp.simps, simp)

lemma ulp_small: "n < 2 ^ 53 \<Longrightarrow> ulp n = 1"
  by (subst ulp.simps) simp

lemma ulp_large: "\<not> n < 2 ^ 53 \<Longrightarrow> ulp n = 2 * ulp (n div 2)"
  by (subst ulp.simps) simp

lemma ulp_upper: "n < 2 ^ 53 * ulp n"
proof (induction n rule: ulp.induct)
  case (1 n)
  show ?case
  proof (cases "n < 2 ^ 53")
    case True
    then show ?thesis by (simp add: ulp_small)
  next
    case False
    from "1.IH" [OF False] have "n div 2 < 2 ^ 53 * ulp (n div 2)" .
    then have "n < 2 * (2 ^ 53 * ulp (n div 2))" by linarith
    with ulp_large [OF False] show ?thesis by simp
  qed
qed

lemma ulp_lower: "\<not> n < 2 ^ 53 \<Longrightarrow> 2 ^ 52 * ulp n \<le> n"
proof (induction n rule: ulp.induct)
  case (1 n)
  note large = \<open>\<not> n < 2 ^ 53\<close>
  show ?case
  proof (cases "n div 2 < 2 ^ 53")
    case True
    then have "ulp (n div 2) = 1" by (rule ulp_small)
    with large ulp_large [OF large] show ?thesis by simp
  next
    case False
    from "1.IH" [OF large False] have "2 ^ 52 * ulp (n div 2) \<le> n div 2" .
    then have "2 * (2 ^ 52 * ulp (n div 2)) \<le> n" by linarith
    with ulp_large [OF large] show ?thesis by simp
  qed
qed

lemma ulp_power_of_two: "\<exists>k. ulp n = 2 ^ k"
proof (induction n rule: ulp.induct)
  case (1 n)
  show ?case
  proof (cases "n < 2 ^ 53")
    case True
    then have "ulp n = 2 ^ 0" by (simp add: ulp_small)
    then show ?thesis by blast
  next
    case False
    from "1.IH" [OF False] obtain k where "ulp (n div 2) = 2 ^ k" by blast
    with ulp_large [OF False] have "ulp n = 2 ^ Suc k" by simp
    then show ?thesis by blast
  qed
qed

lemma ulp_mono: "x \<le> y \<Longrightarrow> ulp x \<le> ulp y"
proof (induction y arbitrary: x rule: ulp.induct)
  case (1 y)
  show ?case
  proof (cases "y < 2 ^ 53")
    case True
    with "1.prems" have "x < 2 ^ 53" by simp
    with True show ?thesis by (simp add: ulp_small)
  next
    case False
    show ?thesis
    proof (cases "x < 2 ^ 53")
      case True
      with ulp_pos [of y] show ?thesis by (simp add: ulp_small)
    next
      case x: False
      from "1.prems" have "x div 2 \<le> y div 2" by simp
      from "1.IH" [OF False this] have "ulp (x div 2) \<le> ulp (y div 2)" .
      with ulp_large [OF False] ulp_large [OF x] show ?thesis by linarith
    qed
  qed
qed

lemma ulp_next: "ulp x < ulp y \<Longrightarrow> 2 * ulp x \<le> ulp y"
proof -
  assume less: "ulp x < ulp y"
  obtain i j where i: "ulp x = 2 ^ i" and j: "ulp y = 2 ^ j"
    using ulp_power_of_two by blast
  with less have "(2::int) ^ i < 2 ^ j" by simp
  then have "i < j" by simp
  then have "Suc i \<le> j" by simp
  then have "(2::int) ^ Suc i \<le> 2 ^ j" by (rule power_increasing) simp
  with i j show ?thesis by simp
qed

lemma roundToMultiple_bounds:
  assumes "0 < u"
  shows "n div u * u \<le> roundToMultiple u n" "roundToMultiple u n \<le> (n div u + 1) * u"
  using assms by (auto simp: roundToMultiple_def Let_def algebra_simps)

lemma roundToMultiple_multiple:
  assumes "0 < u" and "u dvd g"
  shows "roundToMultiple u g = g"
  using assms by (auto simp: roundToMultiple_def Let_def)

lemma roundToMultiple_mono:
  assumes u: "0 < u" and le: "x \<le> y"
  shows "roundToMultiple u x \<le> roundToMultiple u y"
proof (cases "x div u = y div u")
  case True
  have "x = x div u * u + x mod u" "y = y div u * u + y mod u" by simp_all
  with True le have "x mod u \<le> y mod u" by (metis add_le_cancel_left)
  with True u show ?thesis
    by (auto simp: roundToMultiple_def Let_def algebra_simps)
next
  case False
  from le u have "x div u \<le> y div u" by (simp add: zdiv_mono1)
  with False have "x div u + 1 \<le> y div u" by simp
  with u have "(x div u + 1) * u \<le> y div u * u" by (simp add: mult_right_mono)
  with roundToMultiple_bounds [OF u] show ?thesis by (meson order_trans)
qed

lemma roundNumber_nonneg: "0 \<le> x \<Longrightarrow> 0 \<le> roundNumber x"
proof -
  assume x: "0 \<le> x"
  then have "0 \<le> x div ulp x" using ulp_pos [of x] by (simp add: pos_imp_zdiv_nonneg_iff)
  then have "0 \<le> x div ulp x * ulp x" using ulp_pos [of x] by simp
  with roundToMultiple_bounds(1) [OF ulp_pos, of x x] x show ?thesis
    by (simp add: roundNumber_def)
qed

lemma roundNumber_minus: "roundNumber (- x) = - roundNumber x"
proof (cases "x = 0")
  case True
  with ulp_pos [of 0] show ?thesis by (simp add: roundNumber_def roundToMultiple_def Let_def)
next
  case False
  then show ?thesis by (auto simp: roundNumber_def)
qed

lemma roundNumber_mono_nonneg:
  assumes "0 \<le> x" and "x \<le> y"
  shows "roundNumber x \<le> roundNumber y"
proof -
  from assms have y: "0 \<le> y" by simp
  have "roundToMultiple (ulp x) x \<le> roundToMultiple (ulp y) y"
  proof (cases "ulp x = ulp y")
    case True
    with roundToMultiple_mono [OF ulp_pos assms(2), of y] show ?thesis by simp
  next
    case False
    with ulp_mono [OF assms(2)] have "ulp x < ulp y" by simp
    from ulp_next [OF this] have step: "2 * ulp x \<le> ulp y" .
    with ulp_pos [of x] have "ulp y \<noteq> 1" by linarith
    then have "\<not> y < 2 ^ 53" using ulp_small by blast
    from ulp_lower [OF this] have low: "2 ^ 52 * ulp y \<le> y" .
    have "roundToMultiple (ulp x) x \<le> roundToMultiple (ulp x) (2 ^ 53 * ulp x)"
      using ulp_upper [of x] by (intro roundToMultiple_mono ulp_pos) simp
    also have "\<dots> = 2 ^ 53 * ulp x"
      by (intro roundToMultiple_multiple ulp_pos) simp
    also have "\<dots> \<le> 2 ^ 52 * ulp y" using step by simp
    also have "\<dots> = roundToMultiple (ulp y) (2 ^ 52 * ulp y)"
      by (intro roundToMultiple_multiple [symmetric] ulp_pos) simp
    also have "\<dots> \<le> roundToMultiple (ulp y) y"
      using low by (intro roundToMultiple_mono ulp_pos)
    finally show ?thesis .
  qed
  with assms y show ?thesis by (simp add: roundNumber_def)
qed

lemma roundNumber_mono: "x \<le> y \<Longrightarrow> roundNumber x \<le> roundNumber y"
proof -
  assume le: "x \<le> y"
  consider "0 \<le> x" | "x < 0" "0 \<le> y" | "y < 0" using le by linarith
  then show ?thesis
  proof cases
    case 1
    from 1 le show ?thesis by (rule roundNumber_mono_nonneg)
  next
    case 2
    from 2(1) have "0 \<le> roundNumber (- x)" by (intro roundNumber_nonneg) simp
    then have "roundNumber x \<le> 0" by (simp add: roundNumber_minus)
    with roundNumber_nonneg [OF 2(2)] show ?thesis by simp
  next
    case 3
    with le have "0 \<le> - y" "- y \<le> - x" by simp_all
    from roundNumber_mono_nonneg [OF this] show ?thesis by (simp add: roundNumber_minus)
  qed
qed

lemma roundNumber_exact_nonneg:
  assumes "0 \<le> x" and "x \<le> 2 ^ 53"
  shows "roundNumber x = x"
proof (cases "x < 2 ^ 53")
  case True
  with assms(1) show ?thesis
    by (simp add: roundNumber_def ulp_small roundToMultiple_def)
next
  case False
  with assms(2) have x: "x = 2 ^ 53" by simp
  have "ulp (2 ^ 53) = 2 * ulp (2 ^ 53 div 2)" by (rule ulp_large) simp
  moreover have "ulp (2 ^ 53 div 2) = 1" by (rule ulp_small) simp
  ultimately have "ulp (2 ^ 53) = 2" by simp
  with x show ?thesis by (simp add: roundNumber_def roundToMultiple_def)
qed

lemma roundNumber_exact:
  assumes "- (2 ^ 53) \<le> x" and "x \<le> 2 ^ 53"
  shows "roundNumber x = x"
proof (cases "0 \<le> x")
  case True
  from True assms(2) show ?thesis by (rule roundNumber_exact_nonneg)
next
  case False
  with assms(1) have "0 \<le> - x" "- x \<le> 2 ^ 53" by simp_all
  from roundNumber_exact_nonneg [OF this] show ?thesis by (simp add: roundNumber_minus)
qed

text \<open>A bound that binary64 holds exactly is kept by rounding.\<close>

lemma roundNumber_le:
  assumes "x \<le> k" and "- (2 ^ 53) \<le> k" and "k \<le> 2 ^ 53"
  shows "roundNumber x \<le> k"
  using roundNumber_mono [OF assms(1)] roundNumber_exact [OF assms(2,3)] by simp

lemma roundNumber_ge:
  assumes "k \<le> x" and "- (2 ^ 53) \<le> k" and "k \<le> 2 ^ 53"
  shows "k \<le> roundNumber x"
  using roundNumber_mono [OF assms(1)] roundNumber_exact [OF assms(2,3)] by simp

lemma roundNumber_lessD:
  assumes "roundNumber x < k" and "- (2 ^ 53) \<le> k" and "k \<le> 2 ^ 53"
  shows "x < k"
  using roundNumber_ge [OF _ assms(2,3), of x] assms(1) by force

lemma roundNumber_greaterD:
  assumes "k < roundNumber x" and "- (2 ^ 53) \<le> k" and "k \<le> 2 ^ 53"
  shows "k < x"
  using roundNumber_le [OF _ assms(2,3), of x] assms(1) by force

lemma addN_exact: "- (2 ^ 53) \<le> x + y \<Longrightarrow> x + y \<le> 2 ^ 53 \<Longrightarrow> addN x y = x + y"
  by (simp add: addN_def roundNumber_exact)

lemma subN_exact: "- (2 ^ 53) \<le> x - y \<Longrightarrow> x - y \<le> 2 ^ 53 \<Longrightarrow> subN x y = x - y"
  by (simp add: subN_def roundNumber_exact)

lemma mulN_exact: "- (2 ^ 53) \<le> x * y \<Longrightarrow> x * y \<le> 2 ^ 53 \<Longrightarrow> mulN x y = x * y"
  by (simp add: mulN_def roundNumber_exact)

section \<open>The room container\<close>

lemma roomBoxInv_exact:
  assumes "roomBoxInv r"
  shows "0 \<le> adults r" "0 \<le> seniors r" "0 \<le> children r"
    "adults r + seniors r + children r \<le> 4"
    "total_room r = adults r + seniors r + children r"
    "remainingCapacity r = 4 - (adults r + seniors r + children r)"
proof -
  from assms show nonneg: "0 \<le> adults r" "0 \<le> seniors r" "0 \<le> children r"
    by (simp_all add: roomBoxInv_def)
  from assms have total: "roundNumber (roundNumber (adults r + seniors r) + children r) \<le> 4"
    by (simp add: roomBoxInv_def total_room_def addN_def ROOM_CAPACITY_def)
  have outer: "roundNumber (adults r + seniors r) + children r \<le> 4"
  proof (rule ccontr)
    assume "\<not> ?thesis"
    then have "5 \<le> roundNumber (adults r + seniors r) + children r" by simp
    from roundNumber_ge [OF this] total show False by simp
  qed
  with nonneg have as: "roundNumber (adults r + seniors r) \<le> 4" by simp
  have small: "adults r + seniors r \<le> 4"
  proof (rule ccontr)
    assume "\<not> ?thesis"
    then have "5 \<le> adults r + seniors r" by simp
    from roundNumber_ge [OF this] as show False by simp
  qed
  with nonneg have "roundNumber (adults r + seniors r) = adults r + seniors r"
    by (intro roundNumber_exact) simp_all
  with outer
  show sum: "adults r + seniors r + children r \<le> 4" by simp
  with nonneg small show t: "total_room r = adults r + seniors r + children r"
    by (simp add: total_room_def addN_exact)
  with nonneg sum show "remainingCapacity r = 4 - (adults r + seniors r + children r)"
    by (simp add: remainingCapacity_def ROOM_CAPACITY_def subN_exact)
qed

lemma roomBoxInvI:
  assumes "0 \<le> adults r" "0 \<le> seniors r" "0 \<le> children r"
    and "adults r + seniors r + children r \<le> 4"
  shows "roomBoxInv r"
  using assms by (simp add: roomBoxInv_def total_room_def addN_exact ROOM_CAPACITY_def)

lemma add_exact:
  assumes "roomBoxInv r" and "0 \<le> k"
  shows "addAdults r k = (r\<lparr>adults := adults r + min k (remainingCapacity r)\<rparr>,
                           min k (remainingCapacity r))"
    and "addSeniors r k = (r\<lparr>seniors := seniors r + min k (remainingCapacity r)\<rparr>,
                            min k (remainingCapacity r))"
    and "addChildren r k = (r\<lparr>children := children r + min k (remainingCapacity r)\<rparr>,
                             min k (remainingCapacity r))"
  using roomBoxInv_exact [OF assms(1)] assms(2)
  by (simp_all add: addAdults_def addSeniors_def addChildren_def Let_def addN_exact)

lemma add_keeps_inv:
  assumes "roomBoxInv r" and "0 \<le> k"
  shows "roomBoxInv (fst (addAdults r k))" "roomBoxInv (fst (addSeniors r k))"
    "roomBoxInv (fst (addChildren r k))"
  using roomBoxInv_exact [OF assms(1)] assms(2)
  by (auto simp: add_exact [OF assms] intro!: roomBoxInvI)

lemma addAdults_one:
  assumes "roomBoxInv r" and "0 < remainingCapacity r"
  shows "fst (addAdults r 1) = r\<lparr>adults := adults r + 1\<rparr>"
  using assms by (simp add: add_exact min_def)

lemma addSeniors_one:
  assumes "roomBoxInv r" and "0 < remainingCapacity r"
  shows "fst (addSeniors r 1) = r\<lparr>seniors := seniors r + 1\<rparr>"
  using assms by (simp add: add_exact min_def)

lemma addChildren_one:
  assumes "roomBoxInv r" and "0 < remainingCapacity r"
  shows "fst (addChildren r 1) = r\<lparr>children := children r + 1\<rparr>"
  using assms by (simp add: add_exact min_def)

text \<open>Adding one person to a room with a free place takes one free place.\<close>

lemma add_one_capacity:
  assumes "roomBoxInv r" and "0 < remainingCapacity r"
  shows "remainingCapacity (fst (addAdults r 1)) = remainingCapacity r - 1"
    "remainingCapacity (fst (addSeniors r 1)) = remainingCapacity r - 1"
    "remainingCapacity (fst (addChildren r 1)) = remainingCapacity r - 1"
proof -
  have one: "(0::int) \<le> 1" by simp
  from add_keeps_inv [OF assms(1) one]
  have inv: "roomBoxInv (fst (addAdults r 1))" "roomBoxInv (fst (addSeniors r 1))"
    "roomBoxInv (fst (addChildren r 1))" by simp_all
  show "remainingCapacity (fst (addAdults r 1)) = remainingCapacity r - 1"
    using roomBoxInv_exact(6) [OF inv(1)] roomBoxInv_exact(6) [OF assms(1)]
    by (simp add: addAdults_one [OF assms])
  show "remainingCapacity (fst (addSeniors r 1)) = remainingCapacity r - 1"
    using roomBoxInv_exact(6) [OF inv(2)] roomBoxInv_exact(6) [OF assms(1)]
    by (simp add: addSeniors_one [OF assms])
  show "remainingCapacity (fst (addChildren r 1)) = remainingCapacity r - 1"
    using roomBoxInv_exact(6) [OF inv(3)] roomBoxInv_exact(6) [OF assms(1)]
    by (simp add: addChildren_one [OF assms])
qed

text \<open>
  Claim C8. In a container with no negative field and a total within the capacity, and
  for every count \<open>n \<ge> 0\<close>, each of \<^verbatim>\<open>addAdults\<close>, \<^verbatim>\<open>addSeniors\<close> and
  \<^verbatim>\<open>addChildren\<close> raises its own field by \<open>min n remainingCapacity\<close>, leaves the
  other two fields as they were, returns that number, and leaves the container with no
  negative field and a total between \<open>0\<close> and the capacity. The methods are total
  functions: there is no failing branch.
\<close>

theorem roomBox_add_saturates:
  assumes "roomBoxInv r" and "0 \<le> n"
  shows "(case addAdults r n of (r', added) \<Rightarrow>
            added = min n (remainingCapacity r) \<and> adults r' = adults r + added \<and>
            seniors r' = seniors r \<and> children r' = children r \<and>
            roomBoxInv r' \<and> 0 \<le> total_room r' \<and> total_room r' \<le> ROOM_CAPACITY)
       \<and> (case addSeniors r n of (r', added) \<Rightarrow>
            added = min n (remainingCapacity r) \<and> seniors r' = seniors r + added \<and>
            adults r' = adults r \<and> children r' = children r \<and>
            roomBoxInv r' \<and> 0 \<le> total_room r' \<and> total_room r' \<le> ROOM_CAPACITY)
       \<and> (case addChildren r n of (r', added) \<Rightarrow>
            added = min n (remainingCapacity r) \<and> children r' = children r + added \<and>
            adults r' = adults r \<and> seniors r' = seniors r \<and>
            roomBoxInv r' \<and> 0 \<le> total_room r' \<and> total_room r' \<le> ROOM_CAPACITY)"
proof -
  from add_keeps_inv [OF assms]
  have inv: "roomBoxInv (fst (addAdults r n))" "roomBoxInv (fst (addSeniors r n))"
    "roomBoxInv (fst (addChildren r n))" by simp_all
  have "0 \<le> total_room r' \<and> total_room r' \<le> ROOM_CAPACITY" if "roomBoxInv r'" for r'
    using roomBoxInv_exact [OF that] by (simp add: ROOM_CAPACITY_def)
  with inv show ?thesis by (simp add: add_exact [OF assms])
qed

theorem roomBox_add_saturates_witness:
  "roomBoxInv \<lparr>adults = 1, seniors = 1, children = 1\<rparr> \<and> (0::int) \<le> 3
   \<and> addAdults \<lparr>adults = 1, seniors = 1, children = 1\<rparr> 3
        = (\<lparr>adults = 2, seniors = 1, children = 1\<rparr>, 1)
   \<and> roomBoxInv (fst (addAdults \<lparr>adults = 1, seniors = 1, children = 1\<rparr> 3))"
proof -
  have inv: "roomBoxInv \<lparr>adults = 1, seniors = 1, children = 1\<rparr>"
    by (rule roomBoxInvI) simp_all
  have n: "(0::int) \<le> 3" by simp
  have run: "addAdults \<lparr>adults = 1, seniors = 1, children = 1\<rparr> 3
        = (\<lparr>adults = 2, seniors = 1, children = 1\<rparr>, 1)"
    using roomBoxInv_exact(6) [OF inv] by (simp add: add_exact [OF inv n])
  from roomBox_add_saturates [OF inv n] inv n run show ?thesis
    by simp
qed

section \<open>One sweep and the loop around it\<close>

lemma add_one_facts:
  assumes "add = addAdults \<or> add = addSeniors \<or> add = addChildren" and "roomBoxInv r"
  shows "roomBoxInv (fst (add r 1))"
    and "0 < remainingCapacity r \<Longrightarrow>
           remainingCapacity (fst (add r 1)) = remainingCapacity r - 1"
proof -
  have one: "(0::int) \<le> 1" by simp
  from assms(1) add_keeps_inv [OF assms(2) one] show "roomBoxInv (fst (add r 1))" by auto
  assume "0 < remainingCapacity r"
  from assms(1) add_one_capacity [OF assms(2) this]
  show "remainingCapacity (fst (add r 1)) = remainingCapacity r - 1" by auto
qed

lemma sweep_length:
  "sweep ok add rs rem p = (rs', rem', p') \<Longrightarrow> length rs' = length rs"
  by (induction rs arbitrary: rem p rs' rem' p') (auto split: if_splits prod.splits)

lemma sweep_all:
  assumes "\<And>r. P r \<Longrightarrow> P (fst (add r 1))"
  shows "sweep ok add rs rem p = (rs', rem', p') \<Longrightarrow> list_all P rs \<Longrightarrow> list_all P rs'"
  using assms
  by (induction rs arbitrary: rem p rs' rem' p') (auto split: if_splits prod.splits)

text \<open>Below \<open>2^53\<close> the decrement of the counter is exact.\<close>

lemma sweep_counter:
  "sweep ok add rs rem p = (rs', rem', p') \<Longrightarrow> rem \<le> 2 ^ 53 \<Longrightarrow>
     rem' \<le> rem \<and> (0 \<le> rem \<longrightarrow> 0 \<le> rem')"
proof (induction rs arbitrary: rem p rs' rem' p')
  case Nil
  then show ?case by simp
next
  case (Cons r rs)
  show ?case
  proof (cases "rem \<le> 0")
    case True
    with Cons.prems show ?thesis by simp
  next
    case False
    with Cons.prems(2) have dec: "subN rem 1 = rem - 1" by (intro subN_exact) simp_all
    show ?thesis
    proof (cases "ok r")
      case True
      obtain xs k q where s: "sweep ok add rs (rem - 1) True = (xs, k, q)"
        by (cases "sweep ok add rs (rem - 1) True") auto
      from Cons.prems(2) have "rem - 1 \<le> 2 ^ 53" by simp
      from Cons.IH [OF s this] Cons.prems(1) False True s dec show ?thesis by auto
    next
      case nok: False
      obtain xs k q where s: "sweep ok add rs rem p = (xs, k, q)"
        by (cases "sweep ok add rs rem p") auto
      from Cons.IH [OF s Cons.prems(2)] Cons.prems(1) False nok s show ?thesis by auto
    qed
  qed
qed


lemma sweep_sum_add:
  assumes f: "\<And>r. roomBoxInv r \<Longrightarrow> ok r \<Longrightarrow> f (fst (add r 1)) = f r + (1::int)"
  shows "sweep ok add rs rem p = (rs', rem', p') \<Longrightarrow> list_all roomBoxInv rs \<Longrightarrow>
           rem \<le> 2 ^ 53 \<Longrightarrow> sumOf f rs' + rem' = sumOf f rs + rem"
proof (induction rs arbitrary: rem p rs' rem' p')
  case Nil
  then show ?case by simp
next
  case (Cons r rs)
  from Cons.prems(2) have r: "roomBoxInv r" and rs: "list_all roomBoxInv rs" by simp_all
  show ?case
  proof (cases "rem \<le> 0")
    case True
    with Cons.prems show ?thesis by auto
  next
    case False
    with Cons.prems(3) have dec: "subN rem 1 = rem - 1" by (intro subN_exact) simp_all
    show ?thesis
    proof (cases "ok r")
      case True
      obtain xs k q where s: "sweep ok add rs (rem - 1) True = (xs, k, q)"
        by (cases "sweep ok add rs (rem - 1) True") auto
      from Cons.prems(3) have "rem - 1 \<le> 2 ^ 53" by simp
      from Cons.IH [OF s rs this] Cons.prems(1) False True s dec f [OF r True]
      show ?thesis by auto
    next
      case nok: False
      obtain xs k q where s: "sweep ok add rs rem p = (xs, k, q)"
        by (cases "sweep ok add rs rem p") auto
      from Cons.IH [OF s rs Cons.prems(3)] Cons.prems(1) False nok s show ?thesis by auto
    qed
  qed
qed

lemma sweep_sum_keep:
  assumes g: "\<And>r. roomBoxInv r \<Longrightarrow> ok r \<Longrightarrow> g (fst (add r 1)) = (g r :: int)"
  shows "sweep ok add rs rem p = (rs', rem', p') \<Longrightarrow> list_all roomBoxInv rs \<Longrightarrow>
           sumOf g rs' = sumOf g rs"
proof (induction rs arbitrary: rem p rs' rem' p')
  case Nil
  then show ?case by simp
next
  case (Cons r rs)
  from Cons.prems(2) have r: "roomBoxInv r" and rs: "list_all roomBoxInv rs" by simp_all
  show ?case
  proof (cases "rem \<le> 0")
    case True
    with Cons.prems show ?thesis by auto
  next
    case False
    show ?thesis
    proof (cases "ok r")
      case True
      obtain xs k q where s: "sweep ok add rs (subN rem 1) True = (xs, k, q)"
        by (cases "sweep ok add rs (subN rem 1) True") auto
      from Cons.IH [OF s rs] Cons.prems(1) False True s g [OF r True]
      show ?thesis by auto
    next
      case nok: False
      obtain xs k q where s: "sweep ok add rs rem p = (xs, k, q)"
        by (cases "sweep ok add rs rem p") auto
      from Cons.IH [OF s rs] Cons.prems(1) False nok s show ?thesis by auto
    qed
  qed
qed




text \<open>What every iteration keeps, the result of the loop has.\<close>

lemma sweepUntilNoProgress_rule:
  assumes step: "\<And>r as bs as' r1 p1 bs' r2 p2. I r as bs \<Longrightarrow> 0 < r \<Longrightarrow>
             sweep ok add as r False = (as', r1, p1) \<Longrightarrow>
             sweep ok add bs r1 p1 = (bs', r2, p2) \<Longrightarrow> I r2 as' bs'"
    and run: "sweepUntilNoProgress ok add rem as bs = Some (rem', as', bs')"
    and start: "I rem as bs"
  shows "I rem' as' bs'"
proof -
  let ?P = "\<lambda>ok' add' r xs ys y.
      ok' = ok \<longrightarrow> add' = add \<longrightarrow> I r xs ys \<longrightarrow> I (fst y) (fst (snd y)) (snd (snd y))"
  have "?P ok add rem as bs (rem', as', bs')"
  proof (rule sweepUntilNoProgress.raw_induct [where P = ?P, OF _ run])
    fix loop ok' add' r xs ys y
    assume IH: "\<And>ok' add' r xs ys y. loop ok' add' r xs ys = Some y \<Longrightarrow> ?P ok' add' r xs ys y"
      and body: "(if 0 < r then
          (case sweep ok' add' xs r False of
             (firstRooms', remaining1, placed1) \<Rightarrow>
               (case sweep ok' add' ys remaining1 placed1 of
                  (secondRooms', remaining2, placed2) \<Rightarrow>
                    if \<not> placed2 then Some (remaining2, firstRooms', secondRooms')
                    else loop ok' add' remaining2 firstRooms' secondRooms'))
        else Some (r, xs, ys)) = Some y"
    show "?P ok' add' r xs ys y"
    proof (intro impI)
      assume eq: "ok' = ok" "add' = add" and I: "I r xs ys"
      show "I (fst y) (fst (snd y)) (snd (snd y))"
      proof (cases "0 < r")
        case False
        with body I show ?thesis by auto
      next
        case True
        obtain xs' r1 p1 where s1: "sweep ok add xs r False = (xs', r1, p1)"
          by (cases "sweep ok add xs r False") auto
        obtain ys' r2 p2 where s2: "sweep ok add ys r1 p1 = (ys', r2, p2)"
          by (cases "sweep ok add ys r1 p1") auto
        have I2: "I r2 xs' ys'" using step [OF I True s1 s2] .
        show ?thesis
        proof (cases p2)
          case False
          with body True s1 s2 eq I2 show ?thesis by auto
        next
          case p2: True
          with body True s1 s2 eq have "loop ok add r2 xs' ys' = Some y" by simp
          from IH [OF this] I2 show ?thesis by simp
        qed
      qed
    qed
  qed
  with start show ?thesis by simp
qed

lemma sweepUntilNoProgress_shape:
  assumes run: "sweepUntilNoProgress ok add count A B = Some (rem, A', B')"
    and add: "add = addAdults \<or> add = addSeniors \<or> add = addChildren"
    and A: "list_all roomBoxInv A" and B: "list_all roomBoxInv B"
  shows "list_all roomBoxInv A' \<and> list_all roomBoxInv B'"
proof -
  have "(\<lambda>r X Y. list_all roomBoxInv X \<and> list_all roomBoxInv Y) rem A' B'"
  proof (rule sweepUntilNoProgress_rule [OF _ run])
    show "list_all roomBoxInv A \<and> list_all roomBoxInv B" using A B by simp
  next
    fix r X Y X' r1 p1 Y' r2 p2
    assume "list_all roomBoxInv X \<and> list_all roomBoxInv Y"
      and "sweep ok add X r False = (X', r1, p1)"
      and "sweep ok add Y r1 p1 = (Y', r2, p2)"
    then show "list_all roomBoxInv X' \<and> list_all roomBoxInv Y'"
      using sweep_all [of roomBoxInv add, OF add_one_facts(1) [OF add]] by blast
  qed
  then show ?thesis .
qed

lemma sweepUntilNoProgress_accounts:
  assumes run: "sweepUntilNoProgress ok add count A B = Some (rem, A', B')"
    and add: "add = addAdults \<or> add = addSeniors \<or> add = addChildren"
    and f: "\<And>r. roomBoxInv r \<Longrightarrow> ok r \<Longrightarrow> f (fst (add r 1)) = f r + 1"
    and g: "\<And>r. roomBoxInv r \<Longrightarrow> ok r \<Longrightarrow> g (fst (add r 1)) = g r"
    and h: "\<And>r. roomBoxInv r \<Longrightarrow> ok r \<Longrightarrow> h (fst (add r 1)) = h r"
    and count: "0 \<le> count" "count \<le> 2 ^ 53"
    and A: "list_all roomBoxInv A" and B: "list_all roomBoxInv B"
  shows "length A' = length A \<and> length B' = length B \<and> 0 \<le> rem \<and> rem \<le> count
       \<and> sumOf f A' + sumOf f B' + rem = sumOf f A + sumOf f B + count
       \<and> sumOf g A' + sumOf g B' = sumOf g A + sumOf g B
       \<and> sumOf h A' + sumOf h B' = sumOf h A + sumOf h B"
proof -
  let ?I = "\<lambda>r X Y. list_all roomBoxInv X \<and> list_all roomBoxInv Y
       \<and> length X = length A \<and> length Y = length B \<and> 0 \<le> r \<and> r \<le> count
       \<and> sumOf f X + sumOf f Y + r = sumOf f A + sumOf f B + count
       \<and> sumOf g X + sumOf g Y = sumOf g A + sumOf g B
       \<and> sumOf h X + sumOf h Y = sumOf h A + sumOf h B"
  have "?I rem A' B'"
  proof (rule sweepUntilNoProgress_rule [OF _ run])
    show "?I count A B" using count A B by simp
  next
    fix r X Y X' r1 p1 Y' r2 p2
    assume I: "?I r X Y"
      and s1: "sweep ok add X r False = (X', r1, p1)"
      and s2: "sweep ok add Y r1 p1 = (Y', r2, p2)"
    from I have X: "list_all roomBoxInv X" and Y: "list_all roomBoxInv Y" by simp_all
    from I count have r: "0 \<le> r" "r \<le> 2 ^ 53" by simp_all
    from sweep_counter [OF s1 r(2)] r have r1: "0 \<le> r1" "r1 \<le> r" "r1 \<le> 2 ^ 53" by simp_all
    from sweep_counter [OF s2 r1(3)] r1 have r2: "0 \<le> r2" "r2 \<le> r1" by simp_all
    have "list_all roomBoxInv X'" "list_all roomBoxInv Y'"
      using sweep_all [of roomBoxInv add, OF add_one_facts(1) [OF add] s1 X]
        sweep_all [of roomBoxInv add, OF add_one_facts(1) [OF add] s2 Y] by simp_all
    moreover have "length X' = length X" "length Y' = length Y"
      using sweep_length [OF s1] sweep_length [OF s2] by simp_all
    moreover have "sumOf f X' + r1 = sumOf f X + r" "sumOf f Y' + r2 = sumOf f Y + r1"
      using sweep_sum_add [of ok f add, OF f s1 X r(2)]
        sweep_sum_add [of ok f add, OF f s2 Y r1(3)] by simp_all
    moreover have "sumOf g X' = sumOf g X" "sumOf g Y' = sumOf g Y"
      using sweep_sum_keep [of ok g add, OF g s1 X] sweep_sum_keep [of ok g add, OF g s2 Y]
      by simp_all
    moreover have "sumOf h X' = sumOf h X" "sumOf h Y' = sumOf h Y"
      using sweep_sum_keep [of ok h add, OF h s1 X] sweep_sum_keep [of ok h add, OF h s2 Y]
      by simp_all
    ultimately show "?I r2 X' Y'" using I r1 r2 by simp
  qed
  then show ?thesis by simp
qed

section \<open>The five placement helpers\<close>

subsection \<open>They keep the containers well formed\<close>

lemma placeSeniorsIntoRoomsThatAlreadyHaveSeniors_shape:
  assumes "placeSeniorsIntoRoomsThatAlreadyHaveSeniors count so mx = Some (rem, so', mx')"
    and "list_all roomBoxInv so" and "list_all roomBoxInv mx"
  shows "list_all roomBoxInv so' \<and> list_all roomBoxInv mx'"
proof (cases "count \<le> 0")
  case True
  with assms show ?thesis by (simp add: placeSeniorsIntoRoomsThatAlreadyHaveSeniors_def)
next
  case False
  with assms(1) have "sweepUntilNoProgress (\<lambda>room. seniors room > 0 \<and> remainingCapacity room > 0)
       addSeniors count so mx = Some (rem, so', mx')"
    by (simp add: placeSeniorsIntoRoomsThatAlreadyHaveSeniors_def)
  from sweepUntilNoProgress_shape [OF this _ assms(2,3)] show ?thesis by simp
qed

lemma placeSeniorsAnywhere_shape:
  assumes "placeSeniorsAnywhere count so mx = Some (rem, so', mx')"
    and "list_all roomBoxInv so" and "list_all roomBoxInv mx"
  shows "list_all roomBoxInv so' \<and> list_all roomBoxInv mx'"
proof (cases "count \<le> 0")
  case True
  with assms show ?thesis by (simp add: placeSeniorsAnywhere_def)
next
  case False
  with assms(1) have "sweepUntilNoProgress (\<lambda>room. remainingCapacity room > 0)
       addSeniors count so mx = Some (rem, so', mx')"
    by (simp add: placeSeniorsAnywhere_def)
  from sweepUntilNoProgress_shape [OF this _ assms(2,3)] show ?thesis by simp
qed

lemma placeAdultsPreferMixedRooms_shape:
  assumes "placeAdultsPreferMixedRooms count mx so = Some (rem, mx', so')"
    and "list_all roomBoxInv mx" and "list_all roomBoxInv so"
  shows "list_all roomBoxInv mx' \<and> list_all roomBoxInv so'"
proof (cases "count \<le> 0")
  case True
  with assms show ?thesis by (simp add: placeAdultsPreferMixedRooms_def)
next
  case False
  with assms(1) obtain r1 e1 e2 where
    l1: "sweepUntilNoProgress (\<lambda>room. remainingCapacity room > 0) addAdults count mx []
           = Some (r1, mx', e1)" and
    l2: "sweepUntilNoProgress (\<lambda>room. remainingCapacity room > 0) addAdults r1 so []
           = Some (rem, so', e2)"
    by (auto simp: placeAdultsPreferMixedRooms_def split: option.splits)
  from sweepUntilNoProgress_shape [OF l1 _ assms(2)] sweepUntilNoProgress_shape [OF l2 _ assms(3)]
  show ?thesis by simp
qed

lemma placeChildrenIntoRoomsWithAdults_shape:
  assumes "placeChildrenIntoRoomsWithAdults count mx so = Some (rem, mx', so')"
    and "list_all roomBoxInv mx" and "list_all roomBoxInv so"
  shows "list_all roomBoxInv mx' \<and> list_all roomBoxInv so'"
proof (cases "count \<le> 0")
  case True
  with assms show ?thesis by (simp add: placeChildrenIntoRoomsWithAdults_def)
next
  case False
  with assms(1) have "sweepUntilNoProgress (\<lambda>room. adults room > 0 \<and> remainingCapacity room > 0)
       addChildren count mx so = Some (rem, mx', so')"
    by (simp add: placeChildrenIntoRoomsWithAdults_def)
  from sweepUntilNoProgress_shape [OF this _ assms(2,3)] show ?thesis by simp
qed

lemma placeChildrenIntoRoomsWithSeniors_shape:
  assumes "placeChildrenIntoRoomsWithSeniors count mx so = Some (rem, mx', so')"
    and "list_all roomBoxInv mx" and "list_all roomBoxInv so"
  shows "list_all roomBoxInv mx' \<and> list_all roomBoxInv so'"
proof (cases "count \<le> 0")
  case True
  with assms show ?thesis by (simp add: placeChildrenIntoRoomsWithSeniors_def)
next
  case False
  with assms(1) have "sweepUntilNoProgress (\<lambda>room. seniors room > 0 \<and> remainingCapacity room > 0)
       addChildren count so mx = Some (rem, so', mx')"
    by (auto simp: placeChildrenIntoRoomsWithSeniors_def split: option.splits)
  from sweepUntilNoProgress_shape [OF this _ assms(3,2)] show ?thesis by simp
qed

lemma placeEveryone_shape:
  assumes run: "placeEveryone so mx ra rs rc = Some (so', mx', ra', rs', rc')"
    and so: "list_all roomBoxInv so" and mx: "list_all roomBoxInv mx"
  shows "list_all roomBoxInv so' \<and> list_all roomBoxInv mx'"
proof -
  from run obtain s1 so1 mx1 s2 so2 mx2 a1 mx3 so3 c1 mx4 so4 where
    a: "placeSeniorsIntoRoomsThatAlreadyHaveSeniors rs so mx = Some (s1, so1, mx1)" and
    b: "placeSeniorsAnywhere s1 so1 mx1 = Some (s2, so2, mx2)" and
    c: "placeAdultsPreferMixedRooms ra mx2 so2 = Some (a1, mx3, so3)" and
    d: "placeChildrenIntoRoomsWithAdults rc mx3 so3 = Some (c1, mx4, so4)" and
    e: "(if c1 > 0 then placeChildrenIntoRoomsWithSeniors c1 mx4 so4 else Some (c1, mx4, so4))
          = Some (rc', mx', so')"
    unfolding placeEveryone_def by (simp split: option.splits prod.splits)
  from placeSeniorsIntoRoomsThatAlreadyHaveSeniors_shape [OF a so mx]
  have 1: "list_all roomBoxInv so1" "list_all roomBoxInv mx1" by simp_all
  from placeSeniorsAnywhere_shape [OF b 1]
  have 2: "list_all roomBoxInv so2" "list_all roomBoxInv mx2" by simp_all
  from placeAdultsPreferMixedRooms_shape [OF c 2(2) 2(1)]
  have 3: "list_all roomBoxInv mx3" "list_all roomBoxInv so3" by simp_all
  from placeChildrenIntoRoomsWithAdults_shape [OF d 3]
  have 4: "list_all roomBoxInv mx4" "list_all roomBoxInv so4" by simp_all
  show ?thesis
  proof (cases "c1 > 0")
    case True
    with e have "placeChildrenIntoRoomsWithSeniors c1 mx4 so4 = Some (rc', mx', so')" by simp
    from placeChildrenIntoRoomsWithSeniors_shape [OF this 4] show ?thesis by simp
  next
    case False
    with e 4 show ?thesis by simp
  qed
qed

subsection \<open>They return\<close>







subsection \<open>They keep the accounts\<close>

lemma placeSeniorsIntoRoomsThatAlreadyHaveSeniors_accounts:
  assumes run: "placeSeniorsIntoRoomsThatAlreadyHaveSeniors rs so mx = Some (rs', so', mx')"
    and inv: "allocInv n a s c so mx ra rs rc"
  shows "allocInv n a s c so' mx' ra rs' rc"
proof (cases "rs \<le> 0")
  case True
  with inv have "rs = 0" by (simp add: allocInv_def)
  with run inv show ?thesis by (simp add: placeSeniorsIntoRoomsThatAlreadyHaveSeniors_def)
next
  case False
  with run have loop: "sweepUntilNoProgress (\<lambda>room. seniors room > 0 \<and> remainingCapacity room > 0)
       addSeniors rs so mx = Some (rs', so', mx')"
    by (simp add: placeSeniorsIntoRoomsThatAlreadyHaveSeniors_def)
  from inv have shape: "list_all roomBoxInv so" "list_all roomBoxInv mx"
    and count: "0 \<le> rs" "rs \<le> 2 ^ 53" by (simp_all add: allocInv_def)
  from sweepUntilNoProgress_accounts
    [where f = seniors and g = adults and h = children, OF loop _ _ _ _ count shape]
  have "length so' = length so \<and> length mx' = length mx \<and> 0 \<le> rs' \<and> rs' \<le> rs
       \<and> sumOf seniors so' + sumOf seniors mx' + rs' = sumOf seniors so + sumOf seniors mx + rs
       \<and> sumOf adults so' + sumOf adults mx' = sumOf adults so + sumOf adults mx
       \<and> sumOf children so' + sumOf children mx' = sumOf children so + sumOf children mx"
    by (simp add: addSeniors_one)
  with inv placeSeniorsIntoRoomsThatAlreadyHaveSeniors_shape [OF run shape]
  show ?thesis by (simp add: allocInv_def)
qed

lemma placeSeniorsAnywhere_accounts:
  assumes run: "placeSeniorsAnywhere rs so mx = Some (rs', so', mx')"
    and inv: "allocInv n a s c so mx ra rs rc"
  shows "allocInv n a s c so' mx' ra rs' rc"
proof (cases "rs \<le> 0")
  case True
  with inv have "rs = 0" by (simp add: allocInv_def)
  with run inv show ?thesis by (simp add: placeSeniorsAnywhere_def)
next
  case False
  with run have loop: "sweepUntilNoProgress (\<lambda>room. remainingCapacity room > 0)
       addSeniors rs so mx = Some (rs', so', mx')"
    by (simp add: placeSeniorsAnywhere_def)
  from inv have shape: "list_all roomBoxInv so" "list_all roomBoxInv mx"
    and count: "0 \<le> rs" "rs \<le> 2 ^ 53" by (simp_all add: allocInv_def)
  from sweepUntilNoProgress_accounts
    [where f = seniors and g = adults and h = children, OF loop _ _ _ _ count shape]
  have "length so' = length so \<and> length mx' = length mx \<and> 0 \<le> rs' \<and> rs' \<le> rs
       \<and> sumOf seniors so' + sumOf seniors mx' + rs' = sumOf seniors so + sumOf seniors mx + rs
       \<and> sumOf adults so' + sumOf adults mx' = sumOf adults so + sumOf adults mx
       \<and> sumOf children so' + sumOf children mx' = sumOf children so + sumOf children mx"
    by (simp add: addSeniors_one)
  with inv placeSeniorsAnywhere_shape [OF run shape]
  show ?thesis by (simp add: allocInv_def)
qed

lemma placeAdultsPreferMixedRooms_accounts:
  assumes run: "placeAdultsPreferMixedRooms ra mx so = Some (ra', mx', so')"
    and inv: "allocInv n a s c so mx ra rs rc"
  shows "allocInv n a s c so' mx' ra' rs rc"
proof (cases "ra \<le> 0")
  case True
  with inv have "ra = 0" by (simp add: allocInv_def)
  with run inv show ?thesis by (simp add: placeAdultsPreferMixedRooms_def)
next
  case False
  with run obtain r1 e1 e2 where
    l1: "sweepUntilNoProgress (\<lambda>room. remainingCapacity room > 0) addAdults ra mx []
           = Some (r1, mx', e1)" and
    l2: "sweepUntilNoProgress (\<lambda>room. remainingCapacity room > 0) addAdults r1 so []
           = Some (ra', so', e2)"
    by (auto simp: placeAdultsPreferMixedRooms_def split: option.splits)
  from inv have shape: "list_all roomBoxInv so" "list_all roomBoxInv mx"
    and count: "0 \<le> ra" "ra \<le> 2 ^ 53" by (simp_all add: allocInv_def)
  have nil: "list_all roomBoxInv []" by simp
  from sweepUntilNoProgress_accounts
    [where f = adults and g = seniors and h = children, OF l1 _ _ _ _ count shape(2) nil]
  have 1: "length mx' = length mx \<and> length e1 = 0 \<and> 0 \<le> r1 \<and> r1 \<le> ra
       \<and> sumOf adults mx' + sumOf adults e1 + r1 = sumOf adults mx + ra
       \<and> sumOf seniors mx' + sumOf seniors e1 = sumOf seniors mx
       \<and> sumOf children mx' + sumOf children e1 = sumOf children mx"
    by (auto simp: addAdults_one)
  then have r1: "0 \<le> r1" "r1 \<le> 2 ^ 53" and e1: "e1 = []" using count by simp_all
  from sweepUntilNoProgress_accounts
    [where f = adults and g = seniors and h = children, OF l2 _ _ _ _ r1 shape(1) nil]
  have 2: "length so' = length so \<and> length e2 = 0 \<and> 0 \<le> ra' \<and> ra' \<le> r1
       \<and> sumOf adults so' + sumOf adults e2 + ra' = sumOf adults so + r1
       \<and> sumOf seniors so' + sumOf seniors e2 = sumOf seniors so
       \<and> sumOf children so' + sumOf children e2 = sumOf children so"
    by (auto simp: addAdults_one)
  then have e2: "e2 = []" by simp
  from 1 2 e1 e2 inv placeAdultsPreferMixedRooms_shape [OF run shape(2) shape(1)]
  show ?thesis by (auto simp: allocInv_def)
qed

lemma placeChildrenIntoRoomsWithAdults_accounts:
  assumes run: "placeChildrenIntoRoomsWithAdults rc mx so = Some (rc', mx', so')"
    and inv: "allocInv n a s c so mx ra rs rc"
  shows "allocInv n a s c so' mx' ra rs rc'"
proof (cases "rc \<le> 0")
  case True
  with inv have "rc = 0" by (simp add: allocInv_def)
  with run inv show ?thesis by (simp add: placeChildrenIntoRoomsWithAdults_def)
next
  case False
  with run have loop: "sweepUntilNoProgress (\<lambda>room. adults room > 0 \<and> remainingCapacity room > 0)
       addChildren rc mx so = Some (rc', mx', so')"
    by (simp add: placeChildrenIntoRoomsWithAdults_def)
  from inv have shape: "list_all roomBoxInv so" "list_all roomBoxInv mx"
    and count: "0 \<le> rc" "rc \<le> 2 ^ 53" by (simp_all add: allocInv_def)
  from sweepUntilNoProgress_accounts
    [where f = children and g = adults and h = seniors, OF loop _ _ _ _ count shape(2) shape(1)]
  have "length mx' = length mx \<and> length so' = length so \<and> 0 \<le> rc' \<and> rc' \<le> rc
       \<and> sumOf children mx' + sumOf children so' + rc' = sumOf children mx + sumOf children so + rc
       \<and> sumOf adults mx' + sumOf adults so' = sumOf adults mx + sumOf adults so
       \<and> sumOf seniors mx' + sumOf seniors so' = sumOf seniors mx + sumOf seniors so"
    by (simp add: addChildren_one)
  with inv placeChildrenIntoRoomsWithAdults_shape [OF run shape(2) shape(1)]
  show ?thesis by (simp add: allocInv_def)
qed

lemma placeChildrenIntoRoomsWithSeniors_accounts:
  assumes run: "placeChildrenIntoRoomsWithSeniors rc mx so = Some (rc', mx', so')"
    and inv: "allocInv n a s c so mx ra rs rc"
  shows "allocInv n a s c so' mx' ra rs rc'"
proof (cases "rc \<le> 0")
  case True
  with inv have "rc = 0" by (simp add: allocInv_def)
  with run inv show ?thesis by (simp add: placeChildrenIntoRoomsWithSeniors_def)
next
  case False
  with run have loop: "sweepUntilNoProgress (\<lambda>room. seniors room > 0 \<and> remainingCapacity room > 0)
       addChildren rc so mx = Some (rc', so', mx')"
    by (auto simp: placeChildrenIntoRoomsWithSeniors_def split: option.splits)
  from inv have shape: "list_all roomBoxInv so" "list_all roomBoxInv mx"
    and count: "0 \<le> rc" "rc \<le> 2 ^ 53" by (simp_all add: allocInv_def)
  from sweepUntilNoProgress_accounts
    [where f = children and g = adults and h = seniors, OF loop _ _ _ _ count shape]
  have "length so' = length so \<and> length mx' = length mx \<and> 0 \<le> rc' \<and> rc' \<le> rc
       \<and> sumOf children so' + sumOf children mx' + rc' = sumOf children so + sumOf children mx + rc
       \<and> sumOf adults so' + sumOf adults mx' = sumOf adults so + sumOf adults mx
       \<and> sumOf seniors so' + sumOf seniors mx' = sumOf seniors so + sumOf seniors mx"
    by (simp add: addChildren_one)
  with inv placeChildrenIntoRoomsWithSeniors_shape [OF run shape(2) shape(1)]
  show ?thesis by (simp add: allocInv_def)
qed

lemma placeEveryone_accounts:
  assumes run: "placeEveryone so mx ra rs rc = Some (so', mx', ra', rs', rc')"
    and inv: "allocInv n a s c so mx ra rs rc"
  shows "allocInv n a s c so' mx' ra' rs' rc'"
proof -
  from run obtain s1 so1 mx1 so2 mx2 mx3 so3 c1 mx4 so4 where
    a: "placeSeniorsIntoRoomsThatAlreadyHaveSeniors rs so mx = Some (s1, so1, mx1)" and
    b: "placeSeniorsAnywhere s1 so1 mx1 = Some (rs', so2, mx2)" and
    c: "placeAdultsPreferMixedRooms ra mx2 so2 = Some (ra', mx3, so3)" and
    d: "placeChildrenIntoRoomsWithAdults rc mx3 so3 = Some (c1, mx4, so4)" and
    e: "(if c1 > 0 then placeChildrenIntoRoomsWithSeniors c1 mx4 so4 else Some (c1, mx4, so4))
          = Some (rc', mx', so')"
    unfolding placeEveryone_def by (simp split: option.splits prod.splits)
  from placeSeniorsIntoRoomsThatAlreadyHaveSeniors_accounts [OF a inv]
  have 1: "allocInv n a s c so1 mx1 ra s1 rc" .
  from placeSeniorsAnywhere_accounts [OF b 1]
  have 2: "allocInv n a s c so2 mx2 ra rs' rc" .
  from placeAdultsPreferMixedRooms_accounts [OF c 2]
  have 3: "allocInv n a s c so3 mx3 ra' rs' rc" .
  from placeChildrenIntoRoomsWithAdults_accounts [OF d 3]
  have 4: "allocInv n a s c so4 mx4 ra' rs' c1" .
  show ?thesis
  proof (cases "c1 > 0")
    case True
    with e have "placeChildrenIntoRoomsWithSeniors c1 mx4 so4 = Some (rc', mx', so')" by simp
    from placeChildrenIntoRoomsWithSeniors_accounts [OF this 4] show ?thesis .
  next
    case False
    with e 4 show ?thesis by simp
  qed
qed

section \<open>The order of the result\<close>

lemma roundNumber_sign: "roundNumber x \<le> 0 \<longleftrightarrow> x \<le> 0" "roundNumber x = 0 \<longleftrightarrow> x = 0"
proof -
  have pos: "1 \<le> roundNumber x" if "0 < x"
    using that by (intro roundNumber_ge) simp_all
  have neg: "roundNumber x \<le> - 1" if "x < 0"
    using that by (intro roundNumber_le) simp_all
  have zero: "roundNumber 0 = 0" by (intro roundNumber_exact) simp_all
  show "roundNumber x \<le> 0 \<longleftrightarrow> x \<le> 0"
    using pos neg zero by (cases "x < 0"; cases "x = 0") force+
  show "roundNumber x = 0 \<longleftrightarrow> x = 0"
    using pos neg zero by (cases "x < 0"; cases "x = 0") force+
qed

lemma compareRooms_le: "compareRooms x y \<le> 0 \<longleftrightarrow> roomGe x y"
  by (auto simp: compareRooms_def roomGe_def subN_def roundNumber_sign)

lemma roomGe_total: "\<not> roomGe x y \<Longrightarrow> roomGe y x"
  by (auto simp: roomGe_def)

lemma roomGe_trans: "roomGe x y \<Longrightarrow> roomGe y z \<Longrightarrow> roomGe x z"
  by (auto simp: roomGe_def)

lemma set_insertRoom: "set (insertRoom x ys) = insert x (set ys)"
  by (induction ys) auto

lemma sorted_insertRoom:
  "sorted_wrt roomGe ys \<Longrightarrow> sorted_wrt roomGe (insertRoom x ys)"
proof (induction ys)
  case Nil
  then show ?case by simp
next
  case (Cons y ys)
  show ?case
  proof (cases "compareRooms x y \<le> 0")
    case True
    then have "roomGe x y" by (simp add: compareRooms_le)
    with Cons.prems have "\<forall>z\<in>set (y # ys). roomGe x z"
      by (auto intro: roomGe_trans)
    with True Cons.prems show ?thesis by simp
  next
    case False
    then have "roomGe y x" by (simp add: compareRooms_le roomGe_total)
    with False Cons show ?thesis by (auto simp: set_insertRoom)
  qed
qed

lemma sorted_sortRooms: "sorted_wrt roomGe (sortRooms rs)"
  unfolding sortRooms_def by (induction rs) (simp_all add: sorted_insertRoom)

lemma set_sortRooms: "set (sortRooms rs) = set rs"
  unfolding sortRooms_def by (induction rs) (simp_all add: set_insertRoom)

lemma length_insertRoom: "length (insertRoom x ys) = Suc (length ys)"
  by (induction ys) auto

lemma length_sortRooms: "length (sortRooms rs) = length rs"
  unfolding sortRooms_def by (induction rs) (simp_all add: length_insertRoom)

lemma sum_insertRoom: "sumOf f (insertRoom x ys) = f x + sumOf f ys"
  by (induction ys) auto

lemma sum_sortRooms: "sumOf f (sortRooms rs) = sumOf f rs"
  unfolding sortRooms_def by (induction rs) (simp_all add: sum_insertRoom)

lemma sorted_finishRooms: "sorted_wrt roomGe (finishRooms so mx a s c)"
  by (simp add: finishRooms_def Let_def sorted_sortRooms)

text \<open>The ways in which \<^verbatim>\<open>distribute\<close> returns an array.\<close>

lemma distribute_cases:
  assumes "distribute n a s c = Some (Inr rooms)"
  shows "rooms = [] \<or> (\<exists>so0 mx0 so1 mx1 ra rs so mx ra' rs' rc'. isFeasible n a s c
           \<and> createRooms n a s c = Some (Inr (so0, mx0))
           \<and> seedRooms so0 mx0 a s = Some (so1, mx1, ra, rs)
           \<and> placeEveryone so1 mx1 ra rs c = Some (so, mx, ra', rs', rc')
           \<and> rooms = finishRooms so mx ra' rs' rc')"
  using assms
  by (auto simp: distribute_def split: if_splits option.splits prod.splits sum.splits)

text \<open>
  Claim C5. On every input, the returned array is sorted: of two consecutive rooms, the
  first has more adults, or as many adults and more seniors, or as many of both and at
  least as many children.
\<close>

theorem distribute_sorted:
  assumes "distribute roomCount totalAdults totalSeniors totalChildren = Some (Inr rooms)"
    and "Suc i < length rooms"
  shows "adults (rooms ! i) > adults (rooms ! Suc i)
       \<or> (adults (rooms ! i) = adults (rooms ! Suc i) \<and> seniors (rooms ! i) > seniors (rooms ! Suc i))
       \<or> (adults (rooms ! i) = adults (rooms ! Suc i) \<and> seniors (rooms ! i) = seniors (rooms ! Suc i)
            \<and> children (rooms ! i) \<ge> children (rooms ! Suc i))"
proof -
  from distribute_cases [OF assms(1)] have "sorted_wrt roomGe rooms"
    by (auto simp: sorted_finishRooms)
  with assms(2) have "roomGe (rooms ! i) (rooms ! Suc i)"
    by (simp add: sorted_wrt_nth_less)
  then show ?thesis by (simp add: roomGe_def)
qed

theorem distribute_sorted_witness:
  "distribute 2 2 2 1 = Some (Inr [\<lparr>adults = 2, seniors = 0, children = 1\<rparr>,
                                   \<lparr>adults = 0, seniors = 2, children = 0\<rparr>])
   \<and> Suc 0 < length [\<lparr>adults = 2, seniors = 0, children = 1\<rparr>,
                       \<lparr>adults = 0, seniors = 2, children = 0\<rparr>]
   \<and> adults \<lparr>adults = 2, seniors = 0, children = 1\<rparr>
       > adults \<lparr>adults = 0, seniors = 2, children = 0\<rparr>"
proof -
  have run: "distribute 2 2 2 1 = Some (Inr [\<lparr>adults = 2, seniors = 0, children = 1\<rparr>,
                                             \<lparr>adults = 0, seniors = 2, children = 0\<rparr>])"
    by code_simp
  have len: "Suc 0 < length [\<lparr>adults = 2, seniors = 0, children = 1\<rparr>,
                             \<lparr>adults = 0, seniors = 2, children = 0\<rparr>]"
    by simp
  from distribute_sorted [OF run len] run len show ?thesis by simp
qed

section \<open>The senior-only quota\<close>

subsection \<open>The quota of the specification\<close>

lemma specShrink_unfold:
  "specShrink n a s q =
     (if q > 0 \<and> a + (s - min s (q * ROOM_CAPACITY)) < n - q then specShrink n a s (q - 1) else q)"
  unfolding specShrink_def by (subst while_unfold) simp

lemma specShrink_facts:
  "0 \<le> q \<Longrightarrow> 0 \<le> specShrink n a s q \<and> specShrink n a s q \<le> q
     \<and> (0 < specShrink n a s q \<longrightarrow>
          n - specShrink n a s q
            \<le> a + (s - min s (specShrink n a s q * ROOM_CAPACITY)))"
proof (induction "nat q" arbitrary: q rule: less_induct)
  case less
  show ?case
  proof (cases "q > 0 \<and> a + (s - min s (q * ROOM_CAPACITY)) < n - q")
    case True
    then have eq: "specShrink n a s q = specShrink n a s (q - 1)"
      by (subst specShrink_unfold) simp
    from True have "nat (q - 1) < nat q" "0 \<le> q - 1" by simp_all
    from less.hyps [OF this] eq show ?thesis by simp
  next
    case False
    then have "specShrink n a s q = q"
      by (subst specShrink_unfold) auto
    with less.prems False show ?thesis by auto
  qed
qed

lemma ceiling_quarter: "\<lceil>real_of_int a / real_of_int ROOM_CAPACITY\<rceil> = (a + 3) div 4"
proof -
  have "\<lceil>real_of_int a / real_of_int 4\<rceil> = - (- a div 4)"
    by (rule ceiling_divide_eq_div)
  moreover have "(a + 3) div 4 = - (- a div (4::int))" by presburger
  ultimately show ?thesis by (simp add: ROOM_CAPACITY_def)
qed

lemma specQuota_eq:
  "specQuota n a s c = specShrink n a s (min (max 0 (n - (a + c + 3) div 4)) ((s + 3) div 4))"
  by (simp only: specQuota_def ceiling_quarter)

lemma specQuota_range:
  assumes "0 \<le> n" "0 \<le> a" "0 \<le> s" "0 \<le> c"
  shows "0 \<le> specQuota n a s c \<and> specQuota n a s c \<le> n"
proof -
  let ?start = "min (max 0 (n - (a + c + 3) div 4)) ((s + 3) div 4)"
  from assms have "0 \<le> (a + c + 3) div 4" "0 \<le> (s + 3) div 4" by simp_all
  with assms have start: "0 \<le> ?start" "?start \<le> n" by auto
  from specShrink_facts [OF start(1), of n a s]
  have "0 \<le> specShrink n a s ?start" "specShrink n a s ?start \<le> ?start" by blast+
  with start(2) have "0 \<le> specShrink n a s ?start \<and> specShrink n a s ?start \<le> n"
    by linarith
  then show ?thesis by (simp only: specQuota_eq)
qed

subsection \<open>The quota of the code, where the arithmetic is exact\<close>

lemma ceilDiv_exact:
  assumes "0 \<le> a" and "a + 4 \<le> 2 ^ 53"
  shows "ceilDiv a ROOM_CAPACITY = (a + 3) div 4"
proof -
  from assms have "addN a 4 = a + 4" by (intro addN_exact) simp_all
  moreover from assms have "subN (a + 4) 1 = a + 3" by (simp add: subN_exact)
  ultimately show ?thesis by (simp add: ceilDiv_def ROOM_CAPACITY_def)
qed

lemma shrinkSeniorOnlyRooms_unfold:
  "shrinkSeniorOnlyRooms n a s q =
     (if q > 0 then
        (if addN a (subN s (min s (mulN q ROOM_CAPACITY))) \<ge> subN n q then Some q
         else shrinkSeniorOnlyRooms n a s (subN q 1))
      else Some q)"
  by (subst shrinkSeniorOnlyRooms.simps) (simp add: Let_def)

lemma shrinkSeniorOnlyRooms_exact:
  assumes "0 \<le> n" "n \<le> 2 ^ 53" "0 \<le> a" "0 \<le> s" "a + s \<le> 2 ^ 53"
  shows "0 \<le> q \<Longrightarrow> q \<le> 2 ^ 51 \<Longrightarrow>
           shrinkSeniorOnlyRooms n a s q = Some (specShrink n a s q)"
proof (induction "nat q" arbitrary: q rule: less_induct)
  case less
  show ?case
  proof (cases "q > 0")
    case False
    then have "shrinkSeniorOnlyRooms n a s q = Some q"
      by (subst shrinkSeniorOnlyRooms_unfold) simp
    moreover from False have "specShrink n a s q = q"
      by (subst specShrink_unfold) simp
    ultimately show ?thesis by simp
  next
    case True
    from less.prems have mul: "mulN q ROOM_CAPACITY = q * 4"
      by (simp add: ROOM_CAPACITY_def mulN_exact)
    let ?in = "min s (q * 4)"
    from assms less.prems have "0 \<le> ?in" "?in \<le> s" by simp_all
    with assms have "- (2 ^ 53) \<le> s - ?in" "s - ?in \<le> 2 ^ 53"
      "- (2 ^ 53) \<le> a + (s - ?in)" "a + (s - ?in) \<le> 2 ^ 53" by linarith+
    then have left: "subN s ?in = s - ?in" and anchors: "addN a (s - ?in) = a + (s - ?in)"
      by (simp_all only: subN_exact addN_exact)
    from assms less.prems have "- (2 ^ 53) \<le> n - q" "n - q \<le> 2 ^ 53" by simp_all
    then have rooms: "subN n q = n - q" by (rule subN_exact)
    from less.prems True have "- (2 ^ 53) \<le> q - 1" "q - 1 \<le> 2 ^ 53" by simp_all
    then have dec: "subN q 1 = q - 1" by (rule subN_exact)
    show ?thesis
    proof (cases "a + (s - ?in) < n - q")
      case stay: False
      with True mul left rooms anchors have "shrinkSeniorOnlyRooms n a s q = Some q"
        by (subst shrinkSeniorOnlyRooms_unfold) simp
      moreover from stay have "specShrink n a s q = q"
        by (subst specShrink_unfold) (simp add: ROOM_CAPACITY_def)
      ultimately show ?thesis by simp
    next
      case shrink: True
      with True mul left rooms anchors dec
      have "shrinkSeniorOnlyRooms n a s q = shrinkSeniorOnlyRooms n a s (q - 1)"
        by (subst shrinkSeniorOnlyRooms_unfold) simp
      moreover from True shrink have "specShrink n a s q = specShrink n a s (q - 1)"
        by (subst specShrink_unfold) (simp add: ROOM_CAPACITY_def)
      moreover from True less.prems
      have "nat (q - 1) < nat q" "0 \<le> q - 1" "q - 1 \<le> 2 ^ 51" by simp_all
      from less.hyps [OF this]
      have "shrinkSeniorOnlyRooms n a s (q - 1) = Some (specShrink n a s (q - 1))" .
      ultimately show ?thesis by simp
    qed
  qed
qed

lemma pickSeniorOnlyRoomCount_exact:
  assumes "0 \<le> n" "n \<le> 2 ^ 53" "0 \<le> a" "0 \<le> s" "0 \<le> c" "a + s + c + 4 \<le> 2 ^ 53"
  shows "pickSeniorOnlyRoomCount n a s c = Some (specQuota n a s c)"
proof -
  from assms have ac: "addN a c = a + c" by (intro addN_exact) simp_all
  from assms have needed: "ceilDiv (a + c) ROOM_CAPACITY = (a + c + 3) div 4"
    by (intro ceilDiv_exact) simp_all
  from assms have seniors: "ceilDiv s ROOM_CAPACITY = (s + 3) div 4"
    by (intro ceilDiv_exact) simp_all
  from assms have "0 \<le> (a + c + 3) div 4" "(a + c + 3) div 4 \<le> 2 ^ 51" by simp_all
  with assms have spare: "subN n ((a + c + 3) div 4) = n - (a + c + 3) div 4"
    by (intro subN_exact) simp_all
  let ?start = "min (max 0 (n - (a + c + 3) div 4)) ((s + 3) div 4)"
  from assms have "0 \<le> (s + 3) div 4" "(s + 3) div 4 \<le> 2 ^ 51" by simp_all
  then have start: "0 \<le> ?start" "?start \<le> 2 ^ 51" by simp_all
  from assms have "a + s \<le> 2 ^ 53" by simp
  from shrinkSeniorOnlyRooms_exact [OF assms(1-4) this start]
  show ?thesis
    by (simp add: pickSeniorOnlyRoomCount_def Let_def ac needed seniors spare specQuota_eq)
qed




section \<open>Creating and seeding the rooms\<close>

lemma newRoomBox_inv: "roomBoxInv newRoomBox" "remainingCapacity newRoomBox = 4"
proof -
  show inv: "roomBoxInv newRoomBox" by (rule roomBoxInvI) (simp_all add: newRoomBox_def)
  from roomBoxInv_exact(6) [OF inv] show "remainingCapacity newRoomBox = 4"
    by (simp add: newRoomBox_def)
qed

lemma fresh_rooms:
  "list_all roomBoxInv (replicate k newRoomBox)"
  "\<forall>r\<in>set (replicate k newRoomBox). 0 < remainingCapacity r"
  "sumOf adults (replicate k newRoomBox) = 0" "sumOf seniors (replicate k newRoomBox) = 0"
  "sumOf children (replicate k newRoomBox) = 0"
  by (simp_all add: newRoomBox_inv list_all_iff sum_list_replicate, simp_all add: newRoomBox_def)

lemma newRooms_Inr:
  "newRooms k = Inr rooms \<Longrightarrow> k < 2 ^ 32 \<and> rooms = replicate (nat k) newRoomBox"
  by (auto simp: newRooms_def split: if_splits)

lemma createRooms_Inr:
  assumes "createRooms n a s c = Some (Inr (so, mx))"
  shows "\<exists>q. pickSeniorOnlyRoomCount n a s c = Some q \<and> q < 2 ^ 32 \<and> subN n q < 2 ^ 32
           \<and> so = replicate (nat q) newRoomBox \<and> mx = replicate (nat (subN n q)) newRoomBox"
  using assms
  by (auto simp: createRooms_def split: option.splits sum.splits dest!: newRooms_Inr)

lemma createRooms_shape:
  assumes "createRooms n a s c = Some (Inr (so, mx))"
  shows "list_all roomBoxInv so" "list_all roomBoxInv mx"
  using createRooms_Inr [OF assms] by (auto simp: fresh_rooms)

text \<open>Two arrays of fewer than \<open>2^32\<close> rooms each hold fewer than \<open>2^33\<close> rooms.\<close>

lemma createRooms_small:
  assumes "createRooms n a s c = Some (Inr (so, mx))"
  shows "n < 2 ^ 33"
proof (rule ccontr)
  assume "\<not> n < 2 ^ 33"
  from createRooms_Inr [OF assms] obtain q where q: "q < 2 ^ 32" "subN n q < 2 ^ 32" by blast
  from \<open>\<not> n < 2 ^ 33\<close> q(1) have "2 ^ 32 \<le> n - q" by simp
  then have "2 ^ 32 \<le> roundNumber (n - q)" by (rule roundNumber_ge) simp_all
  with q(2) show False by (simp add: subN_def)
qed

text \<open>
  For a modest room count the feasibility check is exact: it bounds the number of
  people by four times the number of rooms.
\<close>

lemma isFeasible_exact:
  assumes feasible: "isFeasible n a s c"
    and nonneg: "0 \<le> a" "0 \<le> s" "0 \<le> c" and n: "n \<le> 2 ^ 50"
  shows "0 < n" "n \<le> a + s + c" "a + s + c \<le> 4 * n"
proof -
  let ?total = "roundNumber (roundNumber (a + s) + c)"
  from feasible show pos: "0 < n" by (auto simp: isFeasible_def Let_def split: if_splits)
  with n have mul: "mulN n ROOM_CAPACITY = 4 * n"
    by (simp add: ROOM_CAPACITY_def mulN_exact)
  from feasible pos mul have low: "n \<le> ?total" and high: "?total \<le> 4 * n"
    by (auto simp: isFeasible_def Let_def addN_def split: if_splits)
  from high n have cap: "?total \<le> 2 ^ 52" by simp
  have as: "a + s \<le> 2 ^ 52"
  proof (rule ccontr)
    assume "\<not> ?thesis"
    then have "2 ^ 52 + 1 \<le> a + s" by simp
    then have "2 ^ 52 + 1 \<le> roundNumber (a + s)" by (rule roundNumber_ge) simp_all
    with nonneg have "2 ^ 52 + 1 \<le> roundNumber (a + s) + c" by simp
    then have "2 ^ 52 + 1 \<le> ?total" by (rule roundNumber_ge) simp_all
    with cap show False by simp
  qed
  with nonneg have inner: "roundNumber (a + s) = a + s" by (intro roundNumber_exact) simp_all
  have asc: "a + s + c \<le> 2 ^ 52"
  proof (rule ccontr)
    assume "\<not> ?thesis"
    then have "2 ^ 52 + 1 \<le> a + s + c" by simp
    then have "2 ^ 52 + 1 \<le> roundNumber (a + s + c)" by (rule roundNumber_ge) simp_all
    with cap inner show False by simp
  qed
  with nonneg have "roundNumber (a + s + c) = a + s + c" by (intro roundNumber_exact) simp_all
  with inner low high show "n \<le> a + s + c" "a + s + c \<le> 4 * n" by simp_all
qed

lemma createRooms_exact:
  assumes rooms: "createRooms n a s c = Some (Inr (so, mx))"
    and feasible: "isFeasible n a s c"
    and nonneg: "0 \<le> a" "0 \<le> s" "0 \<le> c"
  shows "int (length so) + int (length mx) = n"
    and "0 < n" "n < 2 ^ 33" "a + s + c \<le> 4 * n"
proof -
  from createRooms_small [OF rooms] show small: "n < 2 ^ 33" .
  then have "n \<le> 2 ^ 50" by simp
  from isFeasible_exact [OF feasible nonneg this]
  show pos: "0 < n" and people: "a + s + c \<le> 4 * n" by simp_all
  from pos small people have "0 \<le> n" "n \<le> 2 ^ 53" "a + s + c + 4 \<le> 2 ^ 53" by simp_all
  from pickSeniorOnlyRoomCount_exact [OF this(1,2) nonneg this(3)] specQuota_range [OF this(1) nonneg]
  have pick: "pickSeniorOnlyRoomCount n a s c = Some (specQuota n a s c)"
    and q: "0 \<le> specQuota n a s c" "specQuota n a s c \<le> n" by simp_all
  from q small have "subN n (specQuota n a s c) = n - specQuota n a s c"
    by (intro subN_exact) simp_all
  with createRooms_Inr [OF rooms] pick q
  show "int (length so) + int (length mx) = n" by auto
qed

lemma fillSeniorOnlyRooms_shape:
  "list_all roomBoxInv rooms \<Longrightarrow> list_all roomBoxInv (fst (fillSeniorOnlyRooms rooms s))"
proof (induction rooms arbitrary: s)
  case Nil
  then show ?case by simp
next
  case (Cons r rooms)
  show ?case
  proof (cases "s \<le> 0")
    case True
    with Cons.prems show ?thesis by simp
  next
    case False
    then have "0 \<le> min ROOM_CAPACITY s" by (simp add: ROOM_CAPACITY_def)
    with Cons.prems have "roomBoxInv (fst (addSeniors r (min ROOM_CAPACITY s)))"
      by (simp add: add_keeps_inv)
    moreover from Cons have "list_all roomBoxInv
        (fst (fillSeniorOnlyRooms rooms (subN s (snd (addSeniors r (min ROOM_CAPACITY s))))))"
      by simp
    ultimately show ?thesis using False by (auto split: prod.splits)
  qed
qed

lemma fillSeniorOnlyRooms_accounts:
  "fillSeniorOnlyRooms rooms s = (rooms', s') \<Longrightarrow> list_all roomBoxInv rooms \<Longrightarrow>
   0 \<le> s \<Longrightarrow> s \<le> 2 ^ 53 \<Longrightarrow>
     length rooms' = length rooms \<and> 0 \<le> s' \<and> s' \<le> s
     \<and> sumOf seniors rooms' + s' = sumOf seniors rooms + s
     \<and> sumOf adults rooms' = sumOf adults rooms
     \<and> sumOf children rooms' = sumOf children rooms"
proof (induction rooms arbitrary: s rooms' s')
  case Nil
  then show ?case by simp
next
  case (Cons r rooms)
  from Cons.prems(2) have r: "roomBoxInv r" and rooms: "list_all roomBoxInv rooms" by simp_all
  show ?case
  proof (cases "s \<le> 0")
    case True
    with Cons.prems show ?thesis by auto
  next
    case False
    let ?k = "min (min 4 s) (remainingCapacity r)"
    from False have k0: "0 \<le> min 4 s" by simp
    from add_exact(2) [OF r k0]
    have add: "addSeniors r (min ROOM_CAPACITY s) = (r\<lparr>seniors := seniors r + ?k\<rparr>, ?k)"
      by (simp add: ROOM_CAPACITY_def)
    from roomBoxInv_exact [OF r] have "0 \<le> remainingCapacity r" by simp
    with False have k: "0 \<le> ?k" "?k \<le> s" by simp_all
    with Cons.prems(4) have "- (2 ^ 53) \<le> s - ?k" "s - ?k \<le> 2 ^ 53" by linarith+
    then have sub: "subN s ?k = s - ?k" by (rule subN_exact)
    obtain xs t where rest: "fillSeniorOnlyRooms rooms (s - ?k) = (xs, t)"
      by (cases "fillSeniorOnlyRooms rooms (s - ?k)") auto
    from Cons.prems(1) False add sub rest
    have res: "rooms' = r\<lparr>seniors := seniors r + ?k\<rparr> # xs" "s' = t"
      by simp_all
    from k Cons.prems(4) have "0 \<le> s - ?k" "s - ?k \<le> 2 ^ 53" by linarith+
    from Cons.IH [OF rest rooms this]
    have ih: "length xs = length rooms" "0 \<le> t" "t \<le> s - ?k"
      "sumOf seniors xs + t = sumOf seniors rooms + (s - ?k)"
      "sumOf adults xs = sumOf adults rooms" "sumOf children xs = sumOf children rooms"
      by blast+
    from ih(3) k(1) have "t \<le> s" by linarith
    with ih res show ?thesis by simp
  qed
qed

lemma seedMixedRooms_shape:
  "seedMixedRooms rooms a s = Some (rooms', a', s') \<Longrightarrow> list_all roomBoxInv rooms \<Longrightarrow>
     list_all roomBoxInv rooms'"
proof (induction rooms arbitrary: a s rooms' a' s')
  case Nil
  then show ?case by simp
next
  case (Cons r rooms)
  from Cons.prems(2) have r: "roomBoxInv r" and rooms: "list_all roomBoxInv rooms" by simp_all
  show ?case
  proof (cases "a > 0")
    case True
    with Cons.prems(1) obtain xs where
      rest: "seedMixedRooms rooms (subN a 1) s = Some (xs, a', s')" and
      res: "rooms' = fst (addAdults r 1) # xs"
      by (auto split: option.splits)
    from Cons.IH [OF rest rooms] res r show ?thesis by (simp add: add_keeps_inv)
  next
    case False
    with Cons.prems(1) obtain xs where
      rest: "seedMixedRooms rooms a (subN s 1) = Some (xs, a', s')" and
      res: "rooms' = fst (addSeniors r 1) # xs"
      by (auto split: option.splits if_splits)
    from Cons.IH [OF rest rooms] res r show ?thesis by (simp add: add_keeps_inv)
  qed
qed

lemma seedMixedRooms_accounts:
  "seedMixedRooms rooms a s = Some (rooms', a', s') \<Longrightarrow>
   \<forall>r\<in>set rooms. roomBoxInv r \<and> 0 < remainingCapacity r \<Longrightarrow>
   0 \<le> a \<Longrightarrow> a \<le> 2 ^ 53 \<Longrightarrow> 0 \<le> s \<Longrightarrow> s \<le> 2 ^ 53 \<Longrightarrow>
     length rooms' = length rooms \<and> 0 \<le> a' \<and> a' \<le> a \<and> 0 \<le> s' \<and> s' \<le> s
     \<and> sumOf adults rooms' + a' = sumOf adults rooms + a
     \<and> sumOf seniors rooms' + s' = sumOf seniors rooms + s
     \<and> sumOf children rooms' = sumOf children rooms"
proof (induction rooms arbitrary: a s rooms' a' s')
  case Nil
  then show ?case by simp
next
  case (Cons r rooms)
  from Cons.prems(2) have r: "roomBoxInv r" "0 < remainingCapacity r"
    and rooms: "\<forall>r\<in>set rooms. roomBoxInv r \<and> 0 < remainingCapacity r" by simp_all
  show ?case
  proof (cases "a > 0")
    case True
    with Cons.prems(4) have "- (2 ^ 53) \<le> a - 1" "a - 1 \<le> 2 ^ 53" by linarith+
    then have dec: "subN a 1 = a - 1" by (rule subN_exact)
    with True Cons.prems(1) obtain xs where
      rest: "seedMixedRooms rooms (a - 1) s = Some (xs, a', s')" and
      res: "rooms' = fst (addAdults r 1) # xs"
      by (auto split: option.splits)
    from True Cons.prems(4) have "0 \<le> a - 1" "a - 1 \<le> 2 ^ 53" by linarith+
    from Cons.IH [OF rest rooms this Cons.prems(5,6)] res True
    show ?thesis by (simp add: addAdults_one [OF r])
  next
    case False
    with Cons.prems(1) have s: "s > 0" by (auto split: if_splits)
    with Cons.prems(6) have "- (2 ^ 53) \<le> s - 1" "s - 1 \<le> 2 ^ 53" by linarith+
    then have dec: "subN s 1 = s - 1" by (rule subN_exact)
    with False s Cons.prems(1) obtain xs where
      rest: "seedMixedRooms rooms a (s - 1) = Some (xs, a', s')" and
      res: "rooms' = fst (addSeniors r 1) # xs"
      by (auto split: option.splits)
    from s Cons.prems(6) have "0 \<le> s - 1" "s - 1 \<le> 2 ^ 53" by linarith+
    from Cons.IH [OF rest rooms Cons.prems(3,4) this] res False s
    show ?thesis by (simp add: addSeniors_one [OF r])
  qed
qed

lemma seedRooms_shape:
  assumes "seedRooms so0 mx0 a s = Some (so, mx, ra, rs)"
    and "list_all roomBoxInv so0" and "list_all roomBoxInv mx0"
  shows "list_all roomBoxInv so \<and> list_all roomBoxInv mx"
proof -
  from assms(1) obtain rs0 where
    so: "so = fst (fillSeniorOnlyRooms so0 s)" and
    mx: "seedMixedRooms mx0 a rs0 = Some (mx, ra, rs)"
    by (auto simp: seedRooms_def split: prod.splits option.splits)
  from so assms(2) have "list_all roomBoxInv so"
    by (simp add: fillSeniorOnlyRooms_shape)
  moreover from seedMixedRooms_shape [OF mx assms(3)] have "list_all roomBoxInv mx" .
  ultimately show ?thesis by simp
qed

text \<open>Seeding fresh rooms opens the accounts.\<close>

lemma seedRooms_accounts:
  assumes seed: "seedRooms (replicate k newRoomBox) (replicate m newRoomBox) a s
                   = Some (so, mx, ra, rs)"
    and rooms: "int k + int m = n"
    and bounds: "0 \<le> a" "a \<le> 2 ^ 53" "0 \<le> s" "s \<le> 2 ^ 53" "0 \<le> c" "c \<le> 2 ^ 53"
  shows "allocInv n a s c so mx ra rs c"
proof -
  from seed obtain rs0 where
    fill: "fillSeniorOnlyRooms (replicate k newRoomBox) s = (so, rs0)" and
    mixed: "seedMixedRooms (replicate m newRoomBox) a rs0 = Some (mx, ra, rs)"
    by (auto simp: seedRooms_def split: prod.splits option.splits)
  from fillSeniorOnlyRooms_accounts [OF fill fresh_rooms(1) bounds(3,4)]
  have 1: "length so = k" "0 \<le> rs0" "rs0 \<le> s" "sumOf seniors so + rs0 = s"
    "sumOf adults so = 0" "sumOf children so = 0"
    by (simp_all add: newRoomBox_def sum_list_replicate)
  from 1(3) bounds(4) have rs0: "rs0 \<le> 2 ^ 53" by linarith
  have fresh: "\<forall>r\<in>set (replicate m newRoomBox). roomBoxInv r \<and> 0 < remainingCapacity r"
    by (simp add: newRoomBox_inv)
  from seedMixedRooms_accounts [OF mixed fresh bounds(1,2) 1(2) rs0]
  have 2: "length mx = m" "0 \<le> ra" "ra \<le> a" "0 \<le> rs" "rs \<le> rs0" "sumOf adults mx + ra = a"
    "sumOf seniors mx + rs = rs0" "sumOf children mx = 0"
    by (simp_all add: newRoomBox_def sum_list_replicate)
  from seedRooms_shape [OF seed fresh_rooms(1) fresh_rooms(1)]
  have shape: "list_all roomBoxInv so" "list_all roomBoxInv mx" by simp_all
  from 2(3) bounds(2) have "ra \<le> 2 ^ 53" by linarith
  moreover from 2(5) rs0 have "rs \<le> 2 ^ 53" by linarith
  ultimately show ?thesis using 1 2 shape rooms bounds by (simp add: allocInv_def)
qed

section \<open>The final checks\<close>

lemma map_toRoom: "map toRoom rs = rs"
  by (induction rs) (simp_all add: toRoom_def)

lemma finishRooms_nonempty:
  assumes ne: "finishRooms so mx ra rs rc \<noteq> []" and shape: "list_all roomBoxInv (mx @ so)"
  shows "ra \<le> 0 \<and> rs \<le> 0 \<and> rc \<le> 0 \<and> finishRooms so mx ra rs rc = sortRooms (mx @ so)
       \<and> (\<forall>r\<in>set (mx @ so). 1 \<le> adults r + seniors r + children r
             \<and> \<not> (children r > 0 \<and> adults r + seniors r = 0))"
proof -
  from ne have rem: "\<not> (ra > 0 \<or> rs > 0 \<or> rc > 0)"
    by (auto simp: finishRooms_def)
  with ne have e: "\<not> list_ex (\<lambda>r. total_room r \<le> 0) (mx @ so)"
    by (auto simp: finishRooms_def Let_def split: if_splits)
  with ne rem have k: "\<not> list_ex (\<lambda>r. children r > 0 \<and> addN (adults r) (seniors r) = 0) (mx @ so)"
    by (auto simp: finishRooms_def Let_def split: if_splits)
  from rem e k have "finishRooms so mx ra rs rc = sortRooms (mx @ so)"
    by (simp add: finishRooms_def Let_def map_toRoom)
  moreover have "1 \<le> adults r + seniors r + children r
      \<and> \<not> (children r > 0 \<and> adults r + seniors r = 0)" if "r \<in> set (mx @ so)" for r
  proof -
    from that shape have inv: "roomBoxInv r" by (simp add: list_all_iff)
    from e that have "0 < total_room r" unfolding list_ex_iff by (meson not_le)
    with roomBoxInv_exact(5) [OF inv] have "1 \<le> adults r + seniors r + children r" by simp
    moreover from roomBoxInv_exact [OF inv] have "addN (adults r) (seniors r) = adults r + seniors r"
      by (intro addN_exact) simp_all
    with k that have "\<not> (children r > 0 \<and> adults r + seniors r = 0)"
      unfolding list_ex_iff by auto
    ultimately show ?thesis by simp
  qed
  ultimately show ?thesis using rem by auto
qed

text \<open>What a non-empty result of \<^verbatim>\<open>distribute\<close> is made of.\<close>

lemma distribute_nonempty:
  assumes run: "distribute n a s c = Some (Inr rooms)" and ne: "rooms \<noteq> []"
  shows "\<exists>so mx ra rs rc. isFeasible n a s c \<and> rooms = sortRooms (mx @ so)
           \<and> list_all roomBoxInv (mx @ so)
           \<and> (\<forall>r\<in>set (mx @ so). 1 \<le> adults r + seniors r + children r
                  \<and> \<not> (children r > 0 \<and> adults r + seniors r = 0))
           \<and> ra \<le> 0 \<and> rs \<le> 0 \<and> rc \<le> 0
           \<and> (0 \<le> a \<and> 0 \<le> s \<and> 0 \<le> c \<longrightarrow> allocInv n a s c so mx ra rs rc)"
proof -
  from distribute_cases [OF run] ne obtain so0 mx0 so1 mx1 ra0 rs0 so mx ra rs rc where
    feasible: "isFeasible n a s c" and
    create: "createRooms n a s c = Some (Inr (so0, mx0))" and
    seed: "seedRooms so0 mx0 a s = Some (so1, mx1, ra0, rs0)" and
    place: "placeEveryone so1 mx1 ra0 rs0 c = Some (so, mx, ra, rs, rc)" and
    rooms: "rooms = finishRooms so mx ra rs rc"
    by blast
  from seedRooms_shape [OF seed createRooms_shape [OF create]]
  have "list_all roomBoxInv so1" "list_all roomBoxInv mx1" by simp_all
  from placeEveryone_shape [OF place this] have shape: "list_all roomBoxInv (mx @ so)"
    by simp
  from ne rooms have "finishRooms so mx ra rs rc \<noteq> []" by simp
  from finishRooms_nonempty [OF this shape] rooms
  have fin: "ra \<le> 0" "rs \<le> 0" "rc \<le> 0" "rooms = sortRooms (mx @ so)"
    "\<forall>r\<in>set (mx @ so). 1 \<le> adults r + seniors r + children r
        \<and> \<not> (children r > 0 \<and> adults r + seniors r = 0)"
    by simp_all
  have "allocInv n a s c so mx ra rs rc" if nonneg: "0 \<le> a \<and> 0 \<le> s \<and> 0 \<le> c"
  proof -
    from nonneg have a: "0 \<le> a" and s: "0 \<le> s" and c: "0 \<le> c" by simp_all
    from createRooms_exact [OF create feasible a s c]
    have count: "int (length so0) + int (length mx0) = n"
      and small: "n < 2 ^ 33" "a + s + c \<le> 4 * n" by simp_all
    from createRooms_Inr [OF create] obtain k m where
      fresh: "so0 = replicate k newRoomBox" "mx0 = replicate m newRoomBox" by blast
    with count have km: "int k + int m = n" by simp
    from small a s c have "a \<le> 2 ^ 53" "s \<le> 2 ^ 53" "c \<le> 2 ^ 53" by simp_all
    from seedRooms_accounts [OF seed [unfolded fresh] km a this(1) s this(2) c this(3)]
    have "allocInv n a s c so1 mx1 ra0 rs0 c" .
    from placeEveryone_accounts [OF place this] show ?thesis .
  qed
  with feasible shape fin show ?thesis by blast
qed

section \<open>The returned rooms\<close>

text \<open>
  Claim C1. When \<^verbatim>\<open>distribute\<close> returns a non-empty array for non-negative
  totals, the adults, the seniors and the children of the returned rooms add up to the
  input totals.
\<close>

theorem distribute_preserves_totals:
  assumes "distribute roomCount totalAdults totalSeniors totalChildren = Some (Inr rooms)"
    and "rooms \<noteq> []"
    and "0 \<le> totalAdults" and "0 \<le> totalSeniors" and "0 \<le> totalChildren"
  shows "sum_list (map adults rooms) = totalAdults
       \<and> sum_list (map seniors rooms) = totalSeniors
       \<and> sum_list (map children rooms) = totalChildren"
proof -
  from distribute_nonempty [OF assms(1,2)] assms(3-5) obtain so mx ra rs rc where
    rooms: "rooms = sortRooms (mx @ so)" and
    rem: "ra \<le> 0" "rs \<le> 0" "rc \<le> 0" and
    inv: "allocInv roomCount totalAdults totalSeniors totalChildren so mx ra rs rc"
    by blast
  from inv rem have "ra = 0" "rs = 0" "rc = 0" by (simp_all add: allocInv_def)
  with inv rooms show ?thesis by (simp add: allocInv_def sum_sortRooms)
qed

theorem distribute_preserves_totals_witness:
  "distribute 2 2 2 1 = Some (Inr [\<lparr>adults = 2, seniors = 0, children = 1\<rparr>,
                                   \<lparr>adults = 0, seniors = 2, children = 0\<rparr>])
   \<and> sum_list (map adults [\<lparr>adults = 2, seniors = 0, children = 1\<rparr>,
                              \<lparr>adults = 0, seniors = 2, children = 0\<rparr>]) = 2
   \<and> sum_list (map seniors [\<lparr>adults = 2, seniors = 0, children = 1\<rparr>,
                               \<lparr>adults = 0, seniors = 2, children = 0\<rparr>]) = 2
   \<and> sum_list (map children [\<lparr>adults = 2, seniors = 0, children = 1\<rparr>,
                                \<lparr>adults = 0, seniors = 2, children = 0\<rparr>]) = 1"
proof -
  have run: "distribute 2 2 2 1 = Some (Inr [\<lparr>adults = 2, seniors = 0, children = 1\<rparr>,
                                             \<lparr>adults = 0, seniors = 2, children = 0\<rparr>])"
    by code_simp
  from distribute_preserves_totals [OF run] run show ?thesis by simp
qed

text \<open>
  Claim C2. In a non-empty result, every room with a child has at least one adult or
  senior.
\<close>

theorem distribute_children_chaperoned:
  assumes "distribute roomCount totalAdults totalSeniors totalChildren = Some (Inr rooms)"
    and "rooms \<noteq> []"
    and "r \<in> set rooms" and "children r > 0"
  shows "adults r + seniors r \<ge> 1"
proof -
  from distribute_nonempty [OF assms(1,2)] obtain so mx where
    rooms: "rooms = sortRooms (mx @ so)" and
    shape: "list_all roomBoxInv (mx @ so)" and
    checks: "\<forall>r\<in>set (mx @ so). 1 \<le> adults r + seniors r + children r
               \<and> \<not> (children r > 0 \<and> adults r + seniors r = 0)"
    by blast
  from assms(3) rooms have r: "r \<in> set (mx @ so)" by (simp add: set_sortRooms)
  with shape have "roomBoxInv r" by (simp add: list_all_iff)
  from roomBoxInv_exact(1,2) [OF this] have "0 \<le> adults r + seniors r" by simp
  moreover from checks r assms(4) have "adults r + seniors r \<noteq> 0" by blast
  ultimately show ?thesis by simp
qed

theorem distribute_children_chaperoned_witness:
  "distribute 2 2 2 1 = Some (Inr [\<lparr>adults = 2, seniors = 0, children = 1\<rparr>,
                                   \<lparr>adults = 0, seniors = 2, children = 0\<rparr>])
   \<and> children \<lparr>adults = 2, seniors = 0, children = 1\<rparr> > 0
   \<and> adults \<lparr>adults = 2, seniors = 0, children = 1\<rparr>
       + seniors \<lparr>adults = 2, seniors = 0, children = 1\<rparr> \<ge> 1"
proof -
  have run: "distribute 2 2 2 1 = Some (Inr [\<lparr>adults = 2, seniors = 0, children = 1\<rparr>,
                                             \<lparr>adults = 0, seniors = 2, children = 0\<rparr>])"
    by code_simp
  from distribute_children_chaperoned [OF run, of "\<lparr>adults = 2, seniors = 0, children = 1\<rparr>"] run
  show ?thesis by simp
qed

text \<open>
  Claim C3. In a non-empty result, every room holds at least one person and at most
  \<^verbatim>\<open>ROOM_CAPACITY\<close>, and none of its three counts is negative.
\<close>

theorem distribute_room_within_capacity:
  assumes "distribute roomCount totalAdults totalSeniors totalChildren = Some (Inr rooms)"
    and "rooms \<noteq> []"
    and "r \<in> set rooms"
  shows "1 \<le> adults r + seniors r + children r
       \<and> adults r + seniors r + children r \<le> ROOM_CAPACITY
       \<and> 0 \<le> adults r \<and> 0 \<le> seniors r \<and> 0 \<le> children r"
proof -
  from distribute_nonempty [OF assms(1,2)] obtain so mx where
    rooms: "rooms = sortRooms (mx @ so)" and
    shape: "list_all roomBoxInv (mx @ so)" and
    checks: "\<forall>r\<in>set (mx @ so). 1 \<le> adults r + seniors r + children r
               \<and> \<not> (children r > 0 \<and> adults r + seniors r = 0)"
    by blast
  from assms(3) rooms have r: "r \<in> set (mx @ so)" by (simp add: set_sortRooms)
  with shape have "roomBoxInv r" by (simp add: list_all_iff)
  from roomBoxInv_exact(1-4) [OF this] checks r show ?thesis
    by (simp add: ROOM_CAPACITY_def)
qed

theorem distribute_room_within_capacity_witness:
  "distribute 2 2 2 1 = Some (Inr [\<lparr>adults = 2, seniors = 0, children = 1\<rparr>,
                                   \<lparr>adults = 0, seniors = 2, children = 0\<rparr>])
   \<and> (1::int) \<le> 2 + 0 + 1 \<and> (2::int) + 0 + 1 \<le> ROOM_CAPACITY"
proof -
  have run: "distribute 2 2 2 1 = Some (Inr [\<lparr>adults = 2, seniors = 0, children = 1\<rparr>,
                                             \<lparr>adults = 0, seniors = 2, children = 0\<rparr>])"
    by code_simp
  from distribute_room_within_capacity [OF run, of "\<lparr>adults = 2, seniors = 0, children = 1\<rparr>"] run
  show ?thesis by simp
qed

text \<open>
  Claim C10. A non-empty result for non-negative totals has exactly
  \<^verbatim>\<open>roomCount\<close> rooms.
\<close>

theorem distribute_room_count:
  assumes "distribute roomCount totalAdults totalSeniors totalChildren = Some (Inr rooms)"
    and "rooms \<noteq> []"
    and "0 \<le> totalAdults" and "0 \<le> totalSeniors" and "0 \<le> totalChildren"
  shows "int (length rooms) = roomCount"
proof -
  from distribute_nonempty [OF assms(1,2)] assms(3-5) obtain so mx ra rs rc where
    rooms: "rooms = sortRooms (mx @ so)" and
    inv: "allocInv roomCount totalAdults totalSeniors totalChildren so mx ra rs rc"
    by blast
  from inv rooms show ?thesis by (simp add: allocInv_def length_sortRooms)
qed

theorem distribute_room_count_witness:
  "distribute 3 1 8 3 = Some (Inr [\<lparr>adults = 1, seniors = 0, children = 3\<rparr>,
                                   \<lparr>adults = 0, seniors = 4, children = 0\<rparr>,
                                   \<lparr>adults = 0, seniors = 4, children = 0\<rparr>])
   \<and> int (length [\<lparr>adults = 1, seniors = 0, children = 3\<rparr>,
                    \<lparr>adults = 0, seniors = 4, children = 0\<rparr>,
                    \<lparr>adults = 0, seniors = 4, children = 0\<rparr>]) = 3"
proof -
  have run: "distribute 3 1 8 3 = Some (Inr [\<lparr>adults = 1, seniors = 0, children = 3\<rparr>,
                              \<lparr>adults = 0, seniors = 4, children = 0\<rparr>,
                              \<lparr>adults = 0, seniors = 4, children = 0\<rparr>])"
    by code_simp
  from distribute_room_count [OF run] run show ?thesis by simp
qed

section \<open>Feasibility\<close>




section \<open>Anchoring the mixed rooms\<close>

text \<open>
  Claim C6. The claim, the comment on the branch and the comment of
  \<^verbatim>\<open>pickSeniorOnlyRoomCount\<close> all say that a feasible input never reaches the
  \<^verbatim>\<open>return []\<close> of the anchor loop. The code reaches it for two rooms, one adult
  and one child: the feasibility check never compares the adults and seniors with the
  rooms, the quota is zero, and the second of the two mixed rooms finds neither an adult
  nor a senior left.
\<close>

theorem anchor_dead_end_reached:
  "isFeasible 2 1 0 1
   \<and> createRooms 2 1 0 1 = Some (Inr ([], [newRoomBox, newRoomBox]))
   \<and> seedRooms [] [newRoomBox, newRoomBox] 1 0 = None
   \<and> distribute 2 1 0 1 = Some (Inr [])"
  by code_simp

section \<open>Termination\<close>





end
